theory Spec2Isabelle
  imports Main "HOL-Library.Sublist"
begin

section \<open>The standard-library migration task (stdlib.py)\<close>

text \<open>
  A text is the list of its characters. A \<open>char\<close> of Isabelle is one of 256 values; it
  stands for a code point below 256, and all lengths and positions count characters, as
  Python's do. The patterns of the task name ASCII characters only.
\<close>

subsection \<open>Regular expressions of the rule table\<close>

text \<open>
  The type patterns of the table use literals, concatenation, alternation and the
  optional group only. \<open>rx_match r s\<close> lists, in the order in which Python's
  backtracking matcher tries them, the rests of \<open>s\<close> after each way of matching \<open>r\<close>
  at the head of \<open>s\<close>: the first alternative before the second, and a greedy optional
  group first taken, then skipped.
\<close>

datatype rx = Lit string | Cat rx rx | Alt rx rx | Opt rx

fun rx_match :: "rx \<Rightarrow> string \<Rightarrow> string list" where
  "rx_match (Lit w) s = (if prefix w s then [drop (length w) s] else [])"
| "rx_match (Cat a b) s = concat (map (rx_match b) (rx_match a s))"
| "rx_match (Alt a b) s = rx_match a s @ rx_match b s"
| "rx_match (Opt a) s = rx_match a s @ [s]"

text \<open>\<open>"|".join(type_regexes)\<close>: the alternation of the patterns, in their order.\<close>

fun join_alt :: "rx list \<Rightarrow> rx" where
  "join_alt [] = Lit []"
| "join_alt [r] = r"
| "join_alt (r # rs) = Alt r (join_alt rs)"

subsection \<open>Header\<close>

text \<open>
  The arguments of \<open>Header.__init__\<close>. \<open>func_names\<close> is a Python set of which only
  membership is used; it is kept as the list of its elements.
\<close>

record header =
  name :: string
  func_names :: "string list"
  type_regexes :: "rx list"
  add_prefix :: bool

definition Header :: "string \<Rightarrow> string list \<Rightarrow> rx list \<Rightarrow> bool \<Rightarrow> header" where
  "Header n fs ts ap = \<lparr>name = n, func_names = fs, type_regexes = ts, add_prefix = ap\<rparr>"

text \<open>\<open>self.prefix\<close> (named \<open>prefix_of\<close> here, \<open>prefix\<close> being the prefix order of lists).\<close>

definition prefix_of :: "header \<Rightarrow> string" where
  "prefix_of h = (if add_prefix h then ''std::'' else [])"

definition regex_prefix :: "header \<Rightarrow> string" where
  "regex_prefix h = (if add_prefix h then [] else ''std::'')"

text \<open>
  The replacement template \<open>self.type_sub\<close> (the prefix \<open>std::\<close> and a reference to group 1,
  or the reference alone), filled with the text \<open>g1\<close> of group 1.
\<close>

definition type_sub :: "header \<Rightarrow> string \<Rightarrow> string" where
  "type_sub h g1 = (if add_prefix h then ''std::'' @ g1 else g1)"

lemma type_sub_prefix_of [simp]: "type_sub h g1 = prefix_of h @ g1"
  by (simp add: type_sub_def prefix_of_def)

text \<open>
  \<open>if func_names != []\<close>: \<open>func_names\<close> is a set in every entry of the table (and
  in the default argument), and a Python set never equals a list, so the test holds
  for every header and the function pattern is always compiled.
\<close>

definition has_func_regex :: "header \<Rightarrow> bool" where
  "has_func_regex h = True"

text \<open>\<open>if type_regexes != []\<close>: a comparison of two lists.\<close>

definition has_type_regex :: "header \<Rightarrow> bool" where
  "has_type_regex h = (type_regexes h \<noteq> [])"

subsection \<open>The function pattern\<close>

definition is_lower :: "char \<Rightarrow> bool" where
  "is_lower c = (c \<in> set ''abcdefghijklmnopqrstuvwxyz'')"

definition is_lower_digit :: "char \<Rightarrow> bool" where
  "is_lower_digit c = (c \<in> set ''abcdefghijklmnopqrstuvwxyz0123456789'')"

definition func_boundary :: "char \<Rightarrow> bool" where
  "func_boundary c = (c \<in> set '' ,('')"

text \<open>
  The pattern \<open>(?: |,|\()\<close> + regex_prefix + \<open>([a-z][a-z0-9]*)(?:\()\<close> tried at the
  head of \<open>s\<close>. The greedy \<open>[a-z0-9]*\<close> takes the longest run; a shorter run is
  followed by one of its own characters, never by the parenthesis, so backtracking
  into it finds nothing. The result is the offset of group 1 from the head of \<open>s\<close> and
  the text of group 1.
\<close>

definition func_match_at :: "string \<Rightarrow> string \<Rightarrow> (nat \<times> string) option" where
  "func_match_at rp s =
     (case s of
        [] \<Rightarrow> None
      | b # s1 \<Rightarrow>
          if func_boundary b \<and> prefix rp s1 then
            (case drop (length rp) s1 of
               [] \<Rightarrow> None
             | c # s2 \<Rightarrow>
                 if is_lower c then
                   (case dropWhile is_lower_digit s2 of
                      [] \<Rightarrow> None
                    | p # _ \<Rightarrow>
                        if p = CHR ''('' then
                          Some (Suc (length rp), c # takeWhile is_lower_digit s2)
                        else None)
                 else None)
          else None)"

text \<open>
  \<open>func_regex.search(lines, pos)\<close> is \<open>func_search rp (drop pos lines) pos\<close>: the
  leftmost match starting at or after \<open>pos\<close>, as \<open>(match.start(1), match.group(1))\<close>.
\<close>

fun func_search :: "string \<Rightarrow> string \<Rightarrow> nat \<Rightarrow> (nat \<times> string) option" where
  "func_search rp [] i = None"
| "func_search rp (c # cs) i =
     (case func_match_at rp (c # cs) of
        Some (off, g1) \<Rightarrow> Some (i + off, g1)
      | None \<Rightarrow> func_search rp cs (Suc i))"

lemma func_match_at_bounds:
  "func_match_at rp s = Some (off, g1) \<Longrightarrow> 0 < off \<and> 0 < length g1 \<and> off + length g1 < length s"
proof -
  assume m: "func_match_at rp s = Some (off, g1)"
  then obtain b s1 where s: "s = b # s1" and pre: "prefix rp s1"
    by (auto simp: func_match_at_def split: list.splits if_splits)
  from m s obtain c s2 where d: "drop (length rp) s1 = c # s2"
    by (auto simp: func_match_at_def split: list.splits if_splits)
  from m s d obtain p r where dw: "dropWhile is_lower_digit s2 = p # r"
    and off: "off = Suc (length rp)" and g: "g1 = c # takeWhile is_lower_digit s2"
    by (auto simp: func_match_at_def split: list.splits if_splits)
  have "length (takeWhile is_lower_digit s2) + length (dropWhile is_lower_digit s2) = length s2"
    by (metis length_append takeWhile_dropWhile_id)
  then have "length (takeWhile is_lower_digit s2) < length s2"
    using dw by simp
  moreover have "length s1 = length rp + Suc (length s2)"
    using d pre by (metis append_take_drop_id length_Cons length_append length_take min.absorb2
        prefix_length_le)
  ultimately show ?thesis using s off g by simp
qed

lemma func_search_bounds:
  "func_search rp s i = Some (st, g1) \<Longrightarrow> i < st \<and> 0 < length g1 \<and> st + length g1 < i + length s"
proof (induction s arbitrary: i)
  case Nil
  then show ?case by simp
next
  case (Cons c cs)
  show ?case
  proof (cases "func_match_at rp (c # cs)")
    case None
    with Cons.prems have "func_search rp cs (Suc i) = Some (st, g1)" by simp
    from Cons.IH [OF this] show ?thesis by simp
  next
    case (Some a)
    obtain off g where a: "a = (off, g)" by (cases a)
    with Some Cons.prems have "st = i + off" "g1 = g" by simp_all
    with func_match_at_bounds [of rp "c # cs" off g] Some a show ?thesis by simp
  qed
qed

subsection \<open>func_substitute\<close>

text \<open>
  The loop of \<open>func_substitute\<close>, with its variables \<open>lines\<close>, \<open>pos\<close> and
  \<open>lines_changed\<close> as arguments. \<open>match.end(1)\<close> is \<open>match.start(1) + len(match.group(1))\<close>.
\<close>

function func_loop :: "header \<Rightarrow> string \<Rightarrow> nat \<Rightarrow> bool \<Rightarrow> string \<times> bool" where
  "func_loop h lines pos lines_changed =
     (if pos < length lines then
        (case func_search (regex_prefix h) (drop pos lines) pos of
           None \<Rightarrow> (lines, lines_changed)
         | Some (start1, g1) \<Rightarrow>
             if g1 \<in> set (func_names h) then
               func_loop h
                 (take start1 lines @ prefix_of h @ g1 @ drop (start1 + length g1) lines)
                 (start1 + length (prefix_of h) + length g1)
                 (lines_changed \<or>
                  length lines \<noteq>
                    length (take start1 lines @ prefix_of h @ g1 @ drop (start1 + length g1) lines))
             else
               func_loop h lines (start1 + length (prefix_of h) + length g1) lines_changed)
      else (lines, lines_changed))"
  by pat_completeness auto
termination
proof (relation "measure (\<lambda>(h, lines, pos, ch). length lines - pos)", goal_cases)
  case 1
  show ?case by simp
next
  case (2 h lines pos ch x start1 g1)
  from func_search_bounds [of "regex_prefix h" "drop pos lines" pos start1 g1] 2
  have "pos < start1" "0 < length g1" "start1 + length g1 < pos + length (drop pos lines)"
    by simp_all
  with 2 show ?case by simp
next
  case (3 h lines pos ch x start1 g1)
  from func_search_bounds [of "regex_prefix h" "drop pos lines" pos start1 g1] 3
  have "pos < start1" "0 < length g1" "start1 + length g1 < pos + length (drop pos lines)"
    by simp_all
  with 3 show ?case by simp
qed

declare func_loop.simps [simp del]

definition func_substitute :: "header \<Rightarrow> string \<Rightarrow> string \<times> bool" where
  "func_substitute h lines = func_loop h lines 0 False"

subsection \<open>The type pattern\<close>

definition type_lookbehind :: "char \<Rightarrow> bool" where
  "type_lookbehind c = (c \<in> set ''< ,('')"

text \<open>The lookahead \<open>(?=\)|,|;| |\*+)\<close> at the head of the rest of the text.\<close>

definition type_lookahead :: "string \<Rightarrow> bool" where
  "type_lookahead r = (case r of [] \<Rightarrow> False | c # _ \<Rightarrow> c \<in> set ''),; *'')"

definition type_rx :: "header \<Rightarrow> rx" where
  "type_rx h = join_alt (type_regexes h)"

text \<open>
  regex_prefix + \<open>(\<close> + alternatives + \<open>)\<close> + lookahead, tried at the head of \<open>s\<close>: the
  first way of matching the alternatives after which the lookahead holds. The result
  is the text of group 1 and the rest of \<open>s\<close> after the match. No pattern of the table
  matches the empty string; an empty match is not modelled and counts as no match.
\<close>

definition type_match_at :: "header \<Rightarrow> string \<Rightarrow> (string \<times> string) option" where
  "type_match_at h s =
     (if prefix (regex_prefix h) s then
        (case filter type_lookahead (rx_match (type_rx h) (drop (length (regex_prefix h)) s)) of
           [] \<Rightarrow> None
         | r # _ \<Rightarrow>
             if length r < length s then
               Some (take (length s - length (regex_prefix h) - length r)
                       (drop (length (regex_prefix h)) s), r)
             else None)
      else None)"

lemma rx_match_length: "r \<in> set (rx_match x s) \<Longrightarrow> length r \<le> length s"
proof (induction x arbitrary: s r)
  case (Lit w)
  then show ?case by (auto split: if_splits)
next
  case (Cat a b)
  then obtain m where "m \<in> set (rx_match a s)" "r \<in> set (rx_match b m)" by auto
  with Cat.IH show ?case by (meson le_trans)
next
  case (Alt a b)
  then show ?case by auto
next
  case (Opt a)
  then show ?case by auto
qed

lemma type_match_at_shorter: "type_match_at h s = Some (g1, r) \<Longrightarrow> length r < length s"
  by (auto simp: type_match_at_def split: if_splits list.splits)

text \<open>
  \<open>type_regex.sub(type_sub, lines)\<close>: the text is scanned from the left; \<open>prev\<close> is the
  character before the head of the rest (none at the start of the text), which the
  lookbehind (a left angle bracket, a space, a comma or an open parenthesis) reads in
  the text as it was. Each match is replaced by \<open>type_sub\<close> filled with group 1, and the
  scan goes on after the match.
\<close>

function type_regex_sub_from :: "header \<Rightarrow> char option \<Rightarrow> string \<Rightarrow> string" where
  "type_regex_sub_from h prev [] = []"
| "type_regex_sub_from h prev (c # cs) =
     (case (if (case prev of None \<Rightarrow> False | Some p \<Rightarrow> type_lookbehind p)
            then type_match_at h (c # cs) else None) of
        Some (g1, r) \<Rightarrow>
          type_sub h g1 @
            type_regex_sub_from h (Some ((c # cs) ! (length (c # cs) - length r - 1))) r
      | None \<Rightarrow> c # type_regex_sub_from h (Some c) cs)"
  by pat_completeness auto
termination
  by (relation "measure (\<lambda>(h, prev, s). length s)")
    (auto dest: type_match_at_shorter split: if_splits)

definition type_regex_sub :: "header \<Rightarrow> string \<Rightarrow> string" where
  "type_regex_sub h lines = type_regex_sub_from h None lines"

subsection \<open>The include line\<close>

text \<open>
  \<open>lines.replace(old, new)\<close> for a non-empty \<open>old\<close>: the occurrences of \<open>old\<close> from the
  left, none overlapping the one before. \<open>old in lines\<close> is \<open>sublist old lines\<close>.
\<close>

fun replace_str :: "string \<Rightarrow> string \<Rightarrow> string \<Rightarrow> string" where
  "replace_str old new [] = []"
| "replace_str old new (c # cs) =
     (if prefix old (c # cs) then new @ replace_str old new (drop (length old - 1) cs)
      else c # replace_str old new cs)"

definition include_before :: "header \<Rightarrow> string" where
  "include_before h = (if add_prefix h then name h @ ''.h'' else ''c'' @ name h)"

definition include_after :: "header \<Rightarrow> string" where
  "include_after h = (if add_prefix h then ''c'' @ name h else name h @ ''.h'')"

definition include_line :: "string \<Rightarrow> string" where
  "include_line spine = ''#include <'' @ spine @ ''>''"

subsection \<open>Stdlib.run\<close>

definition include_pass :: "header \<Rightarrow> string \<times> bool \<Rightarrow> string \<times> bool" where
  "include_pass h st =
     (case st of (lines, file_changed) \<Rightarrow>
        if sublist (include_line (include_before h)) lines then
          (replace_str (include_line (include_before h)) (include_line (include_after h)) lines,
           True)
        else (lines, file_changed))"

definition func_pass :: "header \<Rightarrow> string \<times> bool \<Rightarrow> string \<times> bool" where
  "func_pass h st =
     (case st of (lines, file_changed) \<Rightarrow>
        if has_func_regex h then
          (case func_substitute h lines of (lines', changed) \<Rightarrow> (lines', file_changed \<or> changed))
        else (lines, file_changed))"

definition type_pass :: "header \<Rightarrow> string \<times> bool \<Rightarrow> string \<times> bool" where
  "type_pass h st =
     (case st of (lines, file_changed) \<Rightarrow>
        if has_type_regex h then
          (type_regex_sub h lines, file_changed \<or> length lines \<noteq> length (type_regex_sub h lines))
        else (lines, file_changed))"

text \<open>One turn of the loop \<open>for header in headers\<close>.\<close>

definition run_header :: "header \<Rightarrow> string \<times> bool \<Rightarrow> string \<times> bool" where
  "run_header h st = type_pass h (func_pass h (include_pass h st))"

subsection \<open>The rule table\<close>

definition stdint_rx :: rx where
  "stdint_rx =
     Cat (Alt (Cat (Cat (Opt (Lit ''u'')) (Lit ''int''))
                   (Alt (Cat (Opt (Alt (Lit ''_fast'') (Lit ''_least'')))
                             (Alt (Lit ''8'') (Alt (Lit ''16'') (Alt (Lit ''32'') (Lit ''64'')))))
                        (Alt (Lit ''max'') (Lit ''ptr''))))
              (Lit ''size''))
         (Lit ''_t'')"

definition headers :: "header list" where
  "headers =
    [Header ''assert'' [] [] True,
     Header ''ctype''
       [''isalum'', ''isalpha'', ''isblank'', ''iscntrl'', ''isdigit'', ''isgraph'',
        ''islower'', ''isprint'', ''ispunct'', ''isspace'', ''isupper'', ''isxdigit'',
        ''tolower'', ''toupper''] [] True,
     Header ''errno'' [] [] True,
     Header ''float'' [] [] True,
     Header ''limits'' [] [] True,
     Header ''math''
       [''cos'', ''acos'', ''cosh'', ''acosh'', ''sin'', ''asin'', ''asinh'', ''tan'', ''atan'',
        ''atan2'', ''atanh'', ''exp'', ''frexp'', ''ldexp'', ''log'', ''log10'', ''ilogb'',
        ''log1p'', ''log2'', ''logb'', ''modf'', ''exp2'', ''expm1'', ''scalbl'', ''scalbln'',
        ''pow'', ''sqrt'', ''cbrt'', ''hypot'', ''erf'', ''erfc'', ''tgamma'', ''lgamma'',
        ''ceil'', ''floor'', ''fmod'', ''trunc'', ''round'', ''lround'', ''llround'', ''rint'',
        ''lrint'', ''llrint'', ''nearbyint'', ''remainder'', ''remquo'', ''copysign'', ''nan'',
        ''nextafter'', ''nexttoward'', ''fdim'', ''fmax'', ''fmin'', ''fma'', ''fpclassify'',
        ''abs'', ''fabs'', ''signbit'', ''isfinite'', ''isinf'', ''isnan'', ''isnormal'',
        ''isgreater'', ''isgreaterequal'', ''isless'', ''islessequal'', ''islessgreater'',
        ''isunordered''] [] True,
     Header ''setjmp'' [''longjmp'', ''setjmp''] [Lit ''jmp_buf''] True,
     Header ''signal'' [''signal'', ''raise''] [Lit ''sig_atomic_t''] False,
     Header ''stdarg'' [''va_list''] [] True,
     Header ''stddef'' []
       [Cat (Alt (Lit ''ptrdiff'') (Alt (Lit ''max_align'') (Lit ''nullptr''))) (Lit ''_t'')] True,
     Header ''stdint'' [] [stdint_rx] False,
     Header ''stdio''
       [''remove'', ''rename'', ''rewind'', ''tmpfile'', ''tmpnam'', ''fclose'', ''fflush'',
        ''fopen'', ''freopen'', ''fgetc'', ''fgets'', ''fputc'', ''fputs'', ''fread'', ''fwrite'',
        ''fgetpos'', ''fseek'', ''fsetpos'', ''ftell'', ''feof'', ''ferror'', ''setbuf'',
        ''setvbuf'', ''fprintf'', ''snprintf'', ''sprintf'', ''vfprintf'', ''vprintf'',
        ''vsnprintf'', ''vsprintf'', ''printf'', ''fscanf'', ''sscanf'', ''vfscanf'', ''vscanf'',
        ''vsscanf'', ''scanf'', ''getchar'', ''gets'', ''putc'', ''putchar'', ''puts'', ''getc'',
        ''ungetc'', ''clearerr'', ''perror'']
       [Lit ''FILE'', Lit ''fpos_t''] True,
     Header ''stdlib''
       [''atof'', ''atoi'', ''atol'', ''atoll'', ''strtof'', ''strtol'', ''strtod'', ''strtold'',
        ''strtoll'', ''strtoul'', ''strtoull'', ''rand'', ''srand'', ''free'', ''calloc'',
        ''malloc'', ''realloc'', ''abort'', ''at_quick_exit'', ''quick_exit'', ''atexit'',
        ''exit'', ''getenv'', ''system'', ''_Exit'', ''bsearch'', ''qsort'', ''llabs'', ''labs'',
        ''abs'', ''lldiv'', ''ldiv'', ''div'', ''mblen'', ''btowc'', ''wctomb'', ''wcstombs'',
        ''mbstowcs'']
       [Cat (Opt (Alt (Lit ''l'') (Lit ''ll''))) (Lit ''div_t'')] True,
     Header ''string''
       [''memcpy'', ''memcmp'', ''memchr'', ''memmove'', ''memset'', ''strcpy'', ''strncpy'',
        ''strcat'', ''strncat'', ''strcmp'', ''strncmp'', ''strcoll'', ''strchr'', ''strrchr'',
        ''strstr'', ''strxfrm'', ''strcspn'', ''strrspn'', ''strpbrk'', ''strtok'', ''strerror'',
        ''strlen''] [] True,
     Header ''time''
       [''clock'', ''asctime'', ''ctime'', ''difftime'', ''gmtime'', ''localtime'', ''mktime'',
        ''strftime'', ''time'']
       [Cat (Alt (Lit ''clock'') (Lit ''time'')) (Lit ''_t'')] True]"

text \<open>\<open>run(name, lines)\<close>: the file name is not used.\<close>

definition run :: "string \<Rightarrow> string \<Rightarrow> string \<times> bool" where
  "run fname lines = foldl (\<lambda>st h. run_header h st) (lines, False) headers"

section \<open>The clang-tidy task (clangtidy.py)\<close>

datatype error = StopIteration

text \<open>
  What \<open>subprocess.run\<close> hands back: the exit code and, standard error being
  redirected into it, the text of standard output.
\<close>

record completed_process =
  returncode :: int
  stdout :: string

text \<open>The white space that \<open>str.rstrip()\<close> strips, among the code points below 256.\<close>

definition is_space :: "char \<Rightarrow> bool" where
  "is_space c = (of_char c \<in> set [9, 10, 11, 12, 13, 28, 29, 30, 31, 32, 133, 160 :: nat])"

definition rstrip :: "string \<Rightarrow> string" where
  "rstrip s = rev (dropWhile is_space (rev s))"

text \<open>\<open>s.split("\n")\<close>: the pieces between the line feeds, at least one piece.\<close>

fun split_nl :: "string \<Rightarrow> string list" where
  "split_nl [] = [[]]"
| "split_nl (c # cs) =
     (if c = CHR 0x0A then [] # split_nl cs
      else (case split_nl cs of [] \<Rightarrow> [[c]] | l # ls \<Rightarrow> (c # l) # ls))"

text \<open>\<open>"\n".join(lines)\<close>\<close>

fun join_nl :: "string list \<Rightarrow> string" where
  "join_nl [] = []"
| "join_nl [l] = l"
| "join_nl (l # ls) = l @ [CHR 0x0A] @ join_nl ls"

text \<open>
  The loop over \<open>iterlines\<close>: the first argument is what the iterator still holds, the
  second \<open>filtered_lines\<close>. Each \<open>next(iterlines)\<close> on an exhausted iterator raises
  \<open>StopIteration\<close>, which nothing in \<open>run_standalone\<close> catches.
\<close>

fun skip_not_found :: "string list \<Rightarrow> string list \<Rightarrow> error + string list" where
  "skip_not_found [] filtered_lines = Inr filtered_lines"
| "skip_not_found (l # rest) filtered_lines =
     (if sublist ''file not found [clang-diagnostic-error]'' l then
        (case rest of
           [] \<Rightarrow> Inl StopIteration
         | _ # rest1 \<Rightarrow>
             (case rest1 of
                [] \<Rightarrow> Inl StopIteration
              | _ # rest2 \<Rightarrow> skip_not_found rest2 filtered_lines))
      else skip_not_found rest (filtered_lines @ [l]))"

definition filter_lines :: "string \<Rightarrow> error + string list" where
  "filter_lines output =
     skip_not_found
       (filter (\<lambda>l. \<not> sublist ''Error while processing'' l)
          (filter (\<lambda>l. \<not> sublist '' generated.'' l)
             (filter (\<lambda>l. l \<noteq> []) (split_nl (rstrip output)))))
       []"

text \<open>
  \<open>run_standalone\<close>, given the completed subprocess: the boolean returned and what was
  printed (the argument of \<open>print\<close>, if it was called), or the exception raised.
\<close>

definition run_standalone :: "string \<Rightarrow> completed_process \<Rightarrow> error + bool \<times> string option" where
  "run_standalone fname proc =
     (case filter_lines (stdout proc) of
        Inl e \<Rightarrow> Inl e
      | Inr lines \<Rightarrow>
          if lines \<noteq> [] then
            Inr (False, Some (''== clang-tidy '' @ fname @ '' =='' @ [CHR 0x0A] @ join_nl lines))
          else Inr (True, None))"

section \<open>Properties of the migration task\<close>

subsection \<open>The shape of a match of the function pattern\<close>

lemma func_match_atD:
  assumes "func_match_at rp s = Some (off, g1)"
  shows "\<exists>b r. s = b # rp @ g1 @ CHR ''('' # r \<and> func_boundary b \<and> off = Suc (length rp) \<and>
           g1 \<noteq> [] \<and> is_lower (hd g1) \<and> list_all is_lower_digit (tl g1)"
proof -
  from assms obtain b s1 where s: "s = b # s1" and b: "func_boundary b" and pre: "prefix rp s1"
    by (auto simp: func_match_at_def split: list.splits if_splits)
  from assms s obtain c s2 where d: "drop (length rp) s1 = c # s2" and c: "is_lower c"
    by (auto simp: func_match_at_def split: list.splits if_splits)
  from assms s d obtain r where dw: "dropWhile is_lower_digit s2 = CHR ''('' # r"
    and off: "off = Suc (length rp)" and g: "g1 = c # takeWhile is_lower_digit s2"
    by (auto simp: func_match_at_def split: list.splits if_splits)
  have "s2 = takeWhile is_lower_digit s2 @ CHR ''('' # r"
    using dw by (metis takeWhile_dropWhile_id)
  moreover have "s1 = rp @ c # s2"
    using pre d by (metis append_take_drop_id prefix_def append_eq_conv_conj)
  ultimately have "s = b # rp @ g1 @ CHR ''('' # r"
    using s g by simp
  moreover have "list_all is_lower_digit (tl g1)"
    using g by (simp add: list_all_iff) (meson set_takeWhileD)
  ultimately show ?thesis using b off g c by auto
qed

lemma func_searchD:
  assumes "func_search rp s i = Some (st, g1)"
  shows "\<exists>A b r. s = A @ b # rp @ g1 @ CHR ''('' # r \<and> st = i + length A + Suc (length rp) \<and>
           func_boundary b \<and> g1 \<noteq> [] \<and> is_lower (hd g1) \<and> list_all is_lower_digit (tl g1)"
  using assms
proof (induction s arbitrary: i)
  case Nil
  then show ?case by simp
next
  case (Cons c cs)
  show ?case
  proof (cases "func_match_at rp (c # cs)")
    case None
    with Cons.prems have "func_search rp cs (Suc i) = Some (st, g1)" by simp
    from Cons.IH [OF this] obtain A b r where
      "cs = A @ b # rp @ g1 @ CHR ''('' # r" "st = Suc i + length A + Suc (length rp)"
      "func_boundary b" "g1 \<noteq> []" "is_lower (hd g1)" "list_all is_lower_digit (tl g1)"
      by blast
    then have "c # cs = (c # A) @ b # rp @ g1 @ CHR ''('' # r \<and>
        st = i + length (c # A) + Suc (length rp) \<and> func_boundary b \<and> g1 \<noteq> [] \<and>
        is_lower (hd g1) \<and> list_all is_lower_digit (tl g1)"
      by simp
    then show ?thesis by blast
  next
    case (Some a)
    obtain off g where a: "a = (off, g)" by (cases a)
    with Some Cons.prems have e: "st = i + off" "g1 = g" by simp_all
    from func_match_atD [of rp "c # cs" off g] Some a e obtain b r where
      "c # cs = [] @ b # rp @ g1 @ CHR ''('' # r" "func_boundary b" "off = Suc (length rp)"
      "g1 \<noteq> []" "is_lower (hd g1)" "list_all is_lower_digit (tl g1)"
      by auto
    with e show ?thesis by (metis add.right_neutral list.size(3))
  qed
qed

text \<open>The rewrite of an owned match, on the text split at the match.\<close>

lemma func_search_rewrite:
  assumes "func_search rp (drop pos lines) pos = Some (st, g1)" and "pos \<le> length lines"
  shows "\<exists>A b r. lines = A @ b # rp @ g1 @ CHR ''('' # r \<and> st = length A + Suc (length rp) \<and>
           pos \<le> length A \<and>
           take st lines @ pre @ g1 @ drop (st + length g1) lines =
             A @ b # rp @ pre @ g1 @ CHR ''('' # r \<and>
           func_boundary b \<and> g1 \<noteq> [] \<and> is_lower (hd g1) \<and> list_all is_lower_digit (tl g1)"
proof -
  from func_searchD [OF assms(1)] obtain A b r where
    d: "drop pos lines = A @ b # rp @ g1 @ CHR ''('' # r" and st: "st = pos + length A + Suc (length rp)"
    and rest: "func_boundary b" "g1 \<noteq> []" "is_lower (hd g1)" "list_all is_lower_digit (tl g1)"
    by blast
  define A' where "A' = take pos lines @ A"
  have l: "lines = A' @ b # rp @ g1 @ CHR ''('' # r"
    using d by (metis A'_def append.assoc append_take_drop_id)
  have len: "length A' = pos + length A"
    using assms(2) by (simp add: A'_def)
  have l2: "lines = (A' @ b # rp) @ g1 @ CHR ''('' # r" using l by simp
  have st': "st = length (A' @ b # rp)" using st len by simp
  have "take st lines = A' @ b # rp"
    unfolding st' by (subst l2) (simp only: take_append, simp)
  moreover have "drop (st + length g1) lines = CHR ''('' # r"
  proof -
    have "lines = ((A' @ b # rp) @ g1) @ CHR ''('' # r" using l by simp
    moreover have "st + length g1 = length ((A' @ b # rp) @ g1)" using st' by simp
    ultimately show ?thesis by (metis append_eq_conv_conj)
  qed
  ultimately have "take st lines @ pre @ g1 @ drop (st + length g1) lines =
      A' @ b # rp @ pre @ g1 @ CHR ''('' # r" by simp
  with l st len rest show ?thesis
    by (intro exI [of _ A'] exI [of _ b] exI [of _ r]) simp
qed

lemma func_loop_no_prefix:
  "prefix_of h = [] \<Longrightarrow> func_loop h lines pos ch = (lines, ch)"
proof (induction h lines pos ch rule: func_loop.induct)
  case (1 h lines pos ch)
  show ?case
  proof (cases "pos < length lines")
    case False
    then show ?thesis by (subst func_loop.simps) simp
  next
    case lt: True
    show ?thesis
    proof (cases "func_search (regex_prefix h) (drop pos lines) pos")
      case None
      with lt show ?thesis by (subst func_loop.simps) simp
    next
      case (Some a)
      obtain st g1 where a: "a = (st, g1)" by (cases a)
      from func_search_rewrite [of "regex_prefix h" pos lines st g1 "[]"] Some a lt
      have same: "take st lines @ prefix_of h @ g1 @ drop (st + length g1) lines = lines"
        using "1.prems" by auto
      show ?thesis
      proof (cases "g1 \<in> set (func_names h)")
        case True
        have "func_loop h lines pos ch =
          func_loop h (take st lines @ prefix_of h @ g1 @ drop (st + length g1) lines)
            (st + length (prefix_of h) + length g1)
            (ch \<or> length lines \<noteq> length (take st lines @ prefix_of h @ g1 @ drop (st + length g1) lines))"
          using lt Some a True by (subst func_loop.simps) simp
        also have "\<dots> = func_loop h lines (st + length (prefix_of h) + length g1) ch"
          by (simp only: same) simp
        also have "\<dots> = (lines, ch)"
          using "1.IH"(1) [OF lt Some [unfolded a] refl True "1.prems"] same by simp
        finally show ?thesis .
      next
        case False
        have "func_loop h lines pos ch = func_loop h lines (st + length (prefix_of h) + length g1) ch"
          using lt Some a False by (subst func_loop.simps) simp
        also have "\<dots> = (lines, ch)"
          using "1.IH"(2) [OF lt Some [unfolded a] refl False "1.prems"] .
        finally show ?thesis .
      qed
    qed
  qed
qed

subsection \<open>Counting occurrences\<close>

text \<open>\<open>cnt w t\<close> is the number of places of \<open>t\<close> at which the word \<open>w\<close> occurs.\<close>

fun cnt :: "string \<Rightarrow> string \<Rightarrow> nat" where
  "cnt w [] = 0"
| "cnt w (c # cs) = (if prefix w (c # cs) then 1 else 0) + cnt w cs"

lemma prefix_append_sep_left:
  assumes "B \<noteq> []" and "hd B \<notin> set w"
  shows "prefix w (A @ B) \<longleftrightarrow> prefix w A"
proof
  assume "prefix w (A @ B)"
  then have "prefix w A \<or> (\<exists>us. w = A @ us \<and> prefix us B)"
    by (simp only: prefix_append)
  moreover have "prefix w A" if "w = A @ us" "prefix us B" for us
  proof (cases us)
    case Nil
    with that show ?thesis by simp
  next
    case (Cons u us')
    with that(2) assms(1) have "hd B = u" by (cases B) simp_all
    moreover have "u \<in> set w" using that(1) Cons by simp
    ultimately show ?thesis using assms(2) by simp
  qed
  ultimately show "prefix w A" by blast
next
  assume "prefix w A"
  then show "prefix w (A @ B)" by (rule prefix_prefix)
qed

lemma prefix_append_sep_right:
  assumes "A \<noteq> []" and "last A \<notin> set w"
  shows "prefix w (A @ B) \<longleftrightarrow> prefix w A"
proof
  assume "prefix w (A @ B)"
  then have "prefix w A \<or> (\<exists>us. w = A @ us \<and> prefix us B)"
    by (simp only: prefix_append)
  moreover have False if "w = A @ us" for us
  proof -
    have "last A \<in> set A" using assms(1) by (rule last_in_set)
    then have "last A \<in> set w" using that by simp
    with assms(2) show False by simp
  qed
  ultimately show "prefix w A" by blast
next
  assume "prefix w A"
  then show "prefix w (A @ B)" by (rule prefix_prefix)
qed

lemma cnt_Nil: "cnt [] t = length t"
  by (induction t) simp_all

lemma cnt_append_sep_left:
  assumes "B \<noteq> []" and "hd B \<notin> set w"
  shows "cnt w (A @ B) = cnt w A + cnt w B"
proof (induction A)
  case Nil
  show ?case by simp
next
  case (Cons a A)
  have "prefix w ((a # A) @ B) \<longleftrightarrow> prefix w (a # A)"
    using assms by (rule prefix_append_sep_left)
  with Cons.IH show ?case by simp
qed

lemma cnt_append_sep_right:
  assumes "A \<noteq> []" and "last A \<notin> set w"
  shows "cnt w (A @ B) = cnt w A + cnt w B"
  using assms
proof (induction A)
  case Nil
  then show ?case by simp
next
  case (Cons a A)
  have eq: "prefix w ((a # A) @ B) \<longleftrightarrow> prefix w (a # A)"
    using Cons.prems by (rule prefix_append_sep_right)
  have "cnt w (A @ B) = cnt w A + cnt w B"
  proof (cases "A = []")
    case True
    then show ?thesis by simp
  next
    case False
    with Cons show ?thesis by simp
  qed
  with eq show ?case by simp
qed

lemma cnt_sep:
  assumes "m \<noteq> []" and "hd m \<notin> set w" and "last m \<notin> set w"
  shows "cnt w (A @ m @ C) = cnt w A + cnt w m + cnt w C"
proof -
  have "m @ C \<noteq> []" "hd (m @ C) \<notin> set w" using assms(1,2) by simp_all
  then have "cnt w (A @ m @ C) = cnt w A + cnt w (m @ C)"
    by (rule cnt_append_sep_left)
  also have "cnt w (m @ C) = cnt w m + cnt w C"
    using assms(1,3) by (rule cnt_append_sep_right)
  finally show ?thesis by simp
qed

lemma cnt_pos_iff: "w \<noteq> [] \<Longrightarrow> 0 < cnt w t \<longleftrightarrow> sublist w t"
  by (induction t) (simp_all add: sublist_Cons_right)

text \<open>
  A weight of texts that every rewrite of the task raises: the include lines with \<open>.h\<close>
  count against it, but for \<open>signal.h\<close> and \<open>stdint.h\<close>, which the task produces; the colons
  count for it, but for those of a prefix before a type of the signal or stdint rule,
  which the task removes.
\<close>

definition weight :: "string \<Rightarrow> int" where
  "weight t =
     2 * int (cnt ''l.h'' t) + 2 * int (cnt ''nt.h'' t) - int (cnt ''.h'' t) + int (cnt '':'' t)
     - 3 * (int (cnt ''::sig_'' t) + int (cnt ''::size_'' t) + int (cnt ''::int'' t) +
            int (cnt ''::uint'' t))"

definition sep_char :: "char \<Rightarrow> bool" where
  "sep_char c = (c \<notin> set ''l.hnt:sig_zeu'')"

lemma weight_sep:
  assumes "m \<noteq> []" and "sep_char (hd m)" and "sep_char (last m)"
  shows "weight (A @ m @ C) = weight A + weight m + weight C"
proof -
  have "cnt w (A @ m @ C) = cnt w A + cnt w m + cnt w C" if "set w \<subseteq> set ''l.hnt:sig_zeu''" for w
  proof (rule cnt_sep [OF assms(1)])
    show "hd m \<notin> set w" using assms(2) that unfolding sep_char_def by blast
    show "last m \<notin> set w" using assms(3) that unfolding sep_char_def by blast
  qed
  then show ?thesis by (simp add: weight_def)
qed

lemma weight_edit:
  assumes "m \<noteq> []" "m' \<noteq> []" "sep_char (hd m)" "sep_char (last m)"
    "hd m' = hd m" "last m' = last m"
  shows "weight (A @ m' @ C) - weight (A @ m @ C) = weight m' - weight m"
  using weight_sep [of m A C] weight_sep [of m' A C] assms by simp

subsection \<open>The words of a type pattern\<close>

text \<open>The finitely many words that a pattern matches.\<close>

fun rx_lang :: "rx \<Rightarrow> string list" where
  "rx_lang (Lit w) = [w]"
| "rx_lang (Cat a b) = concat (map (\<lambda>x. map (\<lambda>y. x @ y) (rx_lang b)) (rx_lang a))"
| "rx_lang (Alt a b) = rx_lang a @ rx_lang b"
| "rx_lang (Opt a) = rx_lang a @ [[]]"

lemma rx_match_lang: "r \<in> set (rx_match x s) \<longleftrightarrow> (\<exists>w \<in> set (rx_lang x). s = w @ r)"
proof (induction x arbitrary: s r)
  case (Lit w)
  show ?case by (auto simp: prefix_def)
next
  case (Cat a b)
  have "r \<in> set (rx_match (Cat a b) s) \<longleftrightarrow> (\<exists>m \<in> set (rx_match a s). r \<in> set (rx_match b m))"
    by auto
  also have "\<dots> \<longleftrightarrow> (\<exists>m. (\<exists>wa \<in> set (rx_lang a). s = wa @ m) \<and> (\<exists>wb \<in> set (rx_lang b). m = wb @ r))"
    using Cat.IH by blast
  also have "\<dots> \<longleftrightarrow> (\<exists>w \<in> set (rx_lang (Cat a b)). s = w @ r)"
    by (auto simp: image_iff)
  finally show ?case .
next
  case (Alt a b)
  then show ?case by auto
next
  case (Opt a)
  then show ?case by auto
qed

lemma type_match_atD:
  assumes "type_match_at h s = Some (g1, r)"
  shows "s = regex_prefix h @ g1 @ r \<and> g1 \<in> set (rx_lang (type_rx h)) \<and> type_lookahead r \<and>
         length r < length s"
proof -
  let ?rp = "regex_prefix h"
  from assms have pre: "prefix ?rp s"
    by (auto simp: type_match_at_def split: if_splits)
  from assms pre obtain rs where f: "filter type_lookahead (rx_match (type_rx h) (drop (length ?rp) s)) = r # rs"
    and len: "length r < length s"
    and g: "g1 = take (length s - length ?rp - length r) (drop (length ?rp) s)"
    by (auto simp: type_match_at_def split: if_splits list.splits)
  have "r \<in> set (filter type_lookahead (rx_match (type_rx h) (drop (length ?rp) s)))"
    using f by simp
  then have la: "type_lookahead r" and "r \<in> set (rx_match (type_rx h) (drop (length ?rp) s))"
    by simp_all
  then obtain w where w: "w \<in> set (rx_lang (type_rx h))" and d: "drop (length ?rp) s = w @ r"
    using rx_match_lang by blast
  have s: "s = ?rp @ w @ r"
    using pre d by (metis append_take_drop_id prefix_def append_eq_conv_conj)
  then have "length s - length ?rp - length r = length w" by (metis add_diff_cancel_left' add_diff_cancel_right' length_append)
  with g d have "g1 = w" by simp
  with s w la len show ?thesis by simp
qed

subsection \<open>The passes as sequences of edits\<close>

text \<open>
  The three ways in which a header changes a text: an include line replaced, the prefix
  inserted before an owned function name at a call site, the prefix inserted or removed
  before a type name. Each pass is a sequence of such edits.
\<close>

inductive edit_inc :: "header \<Rightarrow> string \<Rightarrow> string \<Rightarrow> bool" for h where
  edit_incI: "edit_inc h (A @ include_line (include_before h) @ C)
                         (A @ include_line (include_after h) @ C)"

inductive edit_fn :: "header \<Rightarrow> string \<Rightarrow> string \<Rightarrow> bool" for h where
  edit_fnI: "add_prefix h \<Longrightarrow> func_boundary b \<Longrightarrow> g1 \<in> set (func_names h) \<Longrightarrow>
     edit_fn h (A @ b # g1 @ CHR ''('' # C) (A @ b # ''std::'' @ g1 @ CHR ''('' # C)"

inductive edit_ty :: "header \<Rightarrow> string \<Rightarrow> string \<Rightarrow> bool" for h where
  edit_tyI: "type_lookbehind b \<Longrightarrow> g1 \<in> set (rx_lang (type_rx h)) \<Longrightarrow> type_lookahead r \<Longrightarrow>
     edit_ty h (A @ b # regex_prefix h @ g1 @ r) (A @ b # prefix_of h @ g1 @ r)"

subsection \<open>The include line\<close>

lemma include_line_not_Nil [simp]: "include_line x \<noteq> []"
  by (simp add: include_line_def)

lemma replace_str_prefix:
  assumes "prefix old (c # cs)" and "old \<noteq> []"
  shows "c # cs = old @ drop (length old - 1) cs"
proof -
  from assms(1) obtain z where z: "c # cs = old @ z" by (auto simp: prefix_def)
  with assms(2) obtain o' where o: "old = c # o'" by (cases old) auto
  with z have "cs = o' @ z" by simp
  then have "drop (length old - 1) cs = z" using o by simp
  with z show ?thesis by simp
qed

lemma replace_str_edits:
  "(edit_inc h)\<^sup>*\<^sup>* (P @ t)
     (P @ replace_str (include_line (include_before h)) (include_line (include_after h)) t)"
proof (induction "include_line (include_before h)" "include_line (include_after h)" t
    arbitrary: P rule: replace_str.induct)
  case 1
  show ?case by simp
next
  case (2 c cs)
  let ?old = "include_line (include_before h)" and ?new = "include_line (include_after h)"
  show ?case
  proof (cases "prefix ?old (c # cs)")
    case True
    from replace_str_prefix [OF True] have e: "c # cs = ?old @ drop (length ?old - 1) cs" by simp
    have "edit_inc h (P @ ?old @ drop (length ?old - 1) cs) (P @ ?new @ drop (length ?old - 1) cs)"
      by (rule edit_incI)
    moreover from "2.hyps"(1) [OF True, of "P @ ?new"]
    have "(edit_inc h)\<^sup>*\<^sup>* (P @ ?new @ drop (length ?old - 1) cs)
            (P @ ?new @ replace_str ?old ?new (drop (length ?old - 1) cs))" by simp
    ultimately have "(edit_inc h)\<^sup>*\<^sup>* (P @ ?old @ drop (length ?old - 1) cs)
            (P @ ?new @ replace_str ?old ?new (drop (length ?old - 1) cs))"
      by (rule converse_rtranclp_into_rtranclp)
    moreover have "replace_str ?old ?new (c # cs) =
        ?new @ replace_str ?old ?new (drop (length ?old - 1) cs)"
      using True by simp
    ultimately show ?thesis by (simp only: e [symmetric])
  next
    case False
    from "2.hyps"(2) [OF False, of "P @ [c]"] False show ?thesis by simp
  qed
qed

lemma replace_str_edits1:
  assumes "sublist (include_line (include_before h)) t"
  shows "(edit_inc h)\<^sup>+\<^sup>+ (P @ t)
     (P @ replace_str (include_line (include_before h)) (include_line (include_after h)) t)"
  using assms
proof (induction t arbitrary: P)
  case Nil
  then show ?case by simp
next
  case (Cons c cs)
  let ?old = "include_line (include_before h)" and ?new = "include_line (include_after h)"
  show ?case
  proof (cases "prefix ?old (c # cs)")
    case True
    from replace_str_prefix [OF True] have e: "c # cs = ?old @ drop (length ?old - 1) cs" by simp
    have "edit_inc h (P @ ?old @ drop (length ?old - 1) cs) (P @ ?new @ drop (length ?old - 1) cs)"
      by (rule edit_incI)
    moreover from replace_str_edits [of h "P @ ?new" "drop (length ?old - 1) cs"]
    have "(edit_inc h)\<^sup>*\<^sup>* (P @ ?new @ drop (length ?old - 1) cs)
            (P @ ?new @ replace_str ?old ?new (drop (length ?old - 1) cs))" by simp
    ultimately have "(edit_inc h)\<^sup>+\<^sup>+ (P @ ?old @ drop (length ?old - 1) cs)
            (P @ ?new @ replace_str ?old ?new (drop (length ?old - 1) cs))"
      by (rule rtranclp_into_tranclp2)
    moreover have "replace_str ?old ?new (c # cs) =
        ?new @ replace_str ?old ?new (drop (length ?old - 1) cs)"
      using True by simp
    ultimately show ?thesis by (simp only: e [symmetric])
  next
    case False
    with Cons.prems have "sublist ?old cs" by (simp add: sublist_Cons_right)
    from Cons.IH [OF this, of "P @ [c]"] False show ?thesis by simp
  qed
qed

subsection \<open>The function pass\<close>

lemma func_loop_edits:
  assumes "add_prefix h"
  shows "(func_loop h lines pos ch = (lines, ch)) \<or>
         (snd (func_loop h lines pos ch) \<and> (edit_fn h)\<^sup>+\<^sup>+ lines (fst (func_loop h lines pos ch)))"
  using assms
proof (induction h lines pos ch rule: func_loop.induct)
  case (1 h lines pos ch)
  have rp: "regex_prefix h = []" and pf: "prefix_of h = ''std::''"
    using "1.prems" by (simp_all add: regex_prefix_def prefix_of_def)
  show ?case
  proof (cases "pos < length lines")
    case False
    then show ?thesis by (subst func_loop.simps) simp
  next
    case lt: True
    show ?thesis
    proof (cases "func_search (regex_prefix h) (drop pos lines) pos")
      case None
      with lt show ?thesis by (subst func_loop.simps) simp
    next
      case (Some a)
      obtain st g1 where a: "a = (st, g1)" by (cases a)
      let ?lines' = "take st lines @ prefix_of h @ g1 @ drop (st + length g1) lines"
      let ?pos' = "st + length (prefix_of h) + length g1"
      from func_search_rewrite [of "regex_prefix h" pos lines st g1 "prefix_of h"] Some a lt
      obtain A b r where l: "lines = A @ b # g1 @ CHR ''('' # r"
        and l': "?lines' = A @ b # ''std::'' @ g1 @ CHR ''('' # r" and b: "func_boundary b"
        unfolding rp pf by auto
      show ?thesis
      proof (cases "g1 \<in> set (func_names h)")
        case True
        have ed: "edit_fn h lines ?lines'"
          unfolding l' by (subst l) (rule edit_fnI [OF "1.prems" b True])
        have len: "length lines \<noteq> length ?lines'"
          unfolding l' by (subst l) simp
        have fl: "(ch \<or> length lines \<noteq> length ?lines') = True" using len by simp
        have "func_loop h lines pos ch =
            func_loop h ?lines' ?pos' (ch \<or> length lines \<noteq> length ?lines')"
          using lt Some a True by (subst func_loop.simps) simp
        then have u: "func_loop h lines pos ch = func_loop h ?lines' ?pos' True"
          by (simp only: fl)
        note ih = "1.IH"(1) [OF lt Some [unfolded a] refl True "1.prems", unfolded fl]
        have flag: "snd (func_loop h ?lines' ?pos' True)"
          using ih by auto
        have "(edit_fn h)\<^sup>*\<^sup>* ?lines' (fst (func_loop h ?lines' ?pos' True))"
          using ih by (auto intro: tranclp_into_rtranclp)
        with ed have "(edit_fn h)\<^sup>+\<^sup>+ lines (fst (func_loop h ?lines' ?pos' True))"
          by (rule rtranclp_into_tranclp2)
        with flag u show ?thesis by simp
      next
        case False
        have u: "func_loop h lines pos ch = func_loop h lines ?pos' ch"
          using lt Some a False by (subst func_loop.simps) simp
        from "1.IH"(2) [OF lt Some [unfolded a] refl False "1.prems"] u show ?thesis by simp
      qed
    qed
  qed
qed

subsection \<open>The type pass\<close>

definition words_nonempty :: "header \<Rightarrow> bool" where
  "words_nonempty h = list_all (\<lambda>w. w \<noteq> []) (rx_lang (type_rx h))"

lemma type_regex_sub_from_edits:
  assumes "words_nonempty h"
  shows "prev = (if P = [] then None else Some (last P)) \<Longrightarrow>
    (edit_ty h)\<^sup>*\<^sup>* (P @ s) (P @ type_regex_sub_from h prev s)"
  using assms
proof (induction h prev s arbitrary: P rule: type_regex_sub_from.induct)
  case (1 h prev)
  show ?case by simp
next
  case (2 h prev c cs)
  let ?guard = "if (case prev of None \<Rightarrow> False | Some x \<Rightarrow> type_lookbehind x)
                then type_match_at h (c # cs) else None"
  show ?case
  proof (cases ?guard)
    case None
    then have out: "type_regex_sub_from h prev (c # cs) = c # type_regex_sub_from h (Some c) cs"
      by simp
    have "(edit_ty h)\<^sup>*\<^sup>* ((P @ [c]) @ cs) ((P @ [c]) @ type_regex_sub_from h (Some c) cs)"
      by (rule "2.IH"(1) [OF None _ "2.prems"(2)]) simp
    then show ?thesis unfolding out by simp
  next
    case (Some x2)
    obtain g1 r where x2: "x2 = (g1, r)" by (cases x2)
    from Some obtain p where prev: "prev = Some p" and p: "type_lookbehind p"
      and m: "type_match_at h (c # cs) = Some (g1, r)"
      unfolding x2 by (cases prev) (simp_all split: if_splits)
    from type_match_atD [OF m] have s: "c # cs = regex_prefix h @ g1 @ r"
      and g: "g1 \<in> set (rx_lang (type_rx h))" and la: "type_lookahead r"
      by simp_all
    from g "2.prems"(2) have gne: "g1 \<noteq> []"
      by (auto simp: words_nonempty_def list_all_iff)
    from prev "2.prems"(1) have P: "P \<noteq> []" "last P = p"
      by (simp_all split: if_splits)
    then have Pb: "P = butlast P @ [p]" by (metis append_butlast_last_id)
    let ?x = "(c # cs) ! (length (c # cs) - length r - 1)"
    have x: "?x = last g1"
    proof -
      have l: "length (c # cs) - length r - 1 = length (regex_prefix h @ g1) - 1"
        by (subst s) simp
      have "(c # cs) ! (length (regex_prefix h @ g1) - 1) =
            (regex_prefix h @ g1) ! (length (regex_prefix h @ g1) - 1)"
        using gne by (subst s) (simp add: nth_append)
      also have "\<dots> = last (regex_prefix h @ g1)"
        using gne by (simp add: last_conv_nth)
      also have "\<dots> = last g1" using gne by simp
      finally show ?thesis using l by simp
    qed
    have out: "type_regex_sub_from h prev (c # cs) = prefix_of h @ g1 @ type_regex_sub_from h (Some ?x) r"
      using Some x2 by simp
    have "edit_ty h (butlast P @ p # regex_prefix h @ g1 @ r) (butlast P @ p # prefix_of h @ g1 @ r)"
      by (rule edit_tyI [OF p g la])
    then have e1: "edit_ty h (P @ c # cs) (P @ prefix_of h @ g1 @ r)"
      by (subst Pb, subst (2) Pb) (simp add: s)
    have pr: "Some ?x = (if P @ prefix_of h @ g1 = [] then None
                         else Some (last (P @ prefix_of h @ g1)))"
      unfolding x using gne by simp
    have "(edit_ty h)\<^sup>*\<^sup>* ((P @ prefix_of h @ g1) @ r)
            ((P @ prefix_of h @ g1) @ type_regex_sub_from h (Some ?x) r)"
      by (rule "2.IH"(2) [OF Some x2 [symmetric] pr "2.prems"(2)])
    then have "(edit_ty h)\<^sup>*\<^sup>* (P @ prefix_of h @ g1 @ r) (P @ type_regex_sub_from h prev (c # cs))"
      unfolding out by simp
    with e1 show ?thesis by (rule converse_rtranclp_into_rtranclp)
  qed
qed

lemma type_regex_sub_edits:
  assumes "words_nonempty h"
  shows "(edit_ty h)\<^sup>*\<^sup>* lines (type_regex_sub h lines)"
  using type_regex_sub_from_edits [OF assms, of None "[]" lines] by (simp add: type_regex_sub_def)

subsection \<open>Facts of the table\<close>

lemma inc_weights:
  "list_all (\<lambda>h. weight (include_line (include_after h)) =
       weight (include_line (include_before h)) + 1) headers"
  by code_simp

lemma fn_weights:
  "list_all (\<lambda>h. add_prefix h \<longrightarrow> list_all (\<lambda>g.
       weight (''std::'' @ g @ ''('') = weight (g @ ''('') + 2) (func_names h)) headers"
  by code_simp

lemma ty_weights:
  "list_all (\<lambda>h. has_type_regex h \<longrightarrow> list_all (\<lambda>g. list_all (\<lambda>f.
       weight (regex_prefix h @ g @ [f]) < weight (prefix_of h @ g @ [f])) ''),; *'')
         (rx_lang (type_rx h))) headers"
  by code_simp

lemma ty_words_nonempty:
  "list_all (\<lambda>h. has_type_regex h \<longrightarrow> words_nonempty h) headers"
  by code_simp


subsection \<open>Every edit raises the weight\<close>

lemma sep_char_boundary: "type_lookbehind b \<Longrightarrow> sep_char b" "func_boundary b \<Longrightarrow> sep_char b"
  by (auto simp: type_lookbehind_def func_boundary_def sep_char_def)

lemma weight_sep_Cons:
  assumes "sep_char b"
  shows "weight (b # X) = weight [b] + weight X"
  using weight_sep [of "[b]" "[]" X] assms by (simp add: weight_def)

lemma edit_inc_weight:
  assumes "h \<in> set headers" and "edit_inc h a b"
  shows "weight a < weight b"
  using assms(2)
proof cases
  case (edit_incI A C)
  let ?m = "include_line (include_before h)" and ?m' = "include_line (include_after h)"
  have "weight (A @ ?m' @ C) - weight (A @ ?m @ C) = weight ?m' - weight ?m"
    by (rule weight_edit) (simp_all add: include_line_def sep_char_def)
  moreover have "weight ?m' = weight ?m + 1"
    using inc_weights assms(1) by (simp add: list_all_iff)
  ultimately show ?thesis using edit_incI by simp
qed

lemma edit_fn_weight:
  assumes "h \<in> set headers" and "edit_fn h a b"
  shows "weight a < weight b"
  using assms(2)
proof cases
  case (edit_fnI b' g1 A C)
  let ?m = "b' # g1 @ ''(''" and ?m' = "b' # ''std::'' @ g1 @ ''(''"
  have sb: "sep_char b'" using edit_fnI by (simp add: sep_char_boundary)
  have "weight (A @ ?m' @ C) - weight (A @ ?m @ C) = weight ?m' - weight ?m"
    by (rule weight_edit) (simp_all add: sb, simp add: sep_char_def)
  moreover have "weight ?m' - weight ?m = weight (''std::'' @ g1 @ ''('') - weight (g1 @ ''('')"
    using weight_sep_Cons [OF sb, of "''std::'' @ g1 @ ''(''"] weight_sep_Cons [OF sb, of "g1 @ ''(''"]
    by simp
  moreover have "weight (''std::'' @ g1 @ ''('') = weight (g1 @ ''('') + 2"
    using fn_weights assms(1) edit_fnI by (simp add: list_all_iff)
  ultimately show ?thesis using edit_fnI by simp
qed

lemma edit_ty_weight:
  assumes "h \<in> set headers" and "has_type_regex h" and "edit_ty h a b"
  shows "weight a < weight b"
  using assms(3)
proof cases
  case (edit_tyI b' g1 r A)
  from edit_tyI obtain f r' where r: "r = f # r'" and f: "f \<in> set ''),; *''"
    by (cases r) (auto simp: type_lookahead_def)
  let ?m = "b' # regex_prefix h @ g1 @ [f]" and ?m' = "b' # prefix_of h @ g1 @ [f]"
  have sb: "sep_char b'" using edit_tyI by (simp add: sep_char_boundary)
  have sf: "sep_char f" using f by (auto simp: sep_char_def)
  have "weight (A @ ?m' @ r') - weight (A @ ?m @ r') = weight ?m' - weight ?m"
    by (rule weight_edit) (simp_all add: sb sf)
  moreover have "weight ?m' - weight ?m =
      weight (prefix_of h @ g1 @ [f]) - weight (regex_prefix h @ g1 @ [f])"
    using weight_sep_Cons [OF sb, of "prefix_of h @ g1 @ [f]"]
      weight_sep_Cons [OF sb, of "regex_prefix h @ g1 @ [f]"]
    by simp
  moreover have "weight (regex_prefix h @ g1 @ [f]) < weight (prefix_of h @ g1 @ [f])"
    using ty_weights assms(1,2) edit_tyI(4) f unfolding list_all_iff by blast
  ultimately show ?thesis using edit_tyI r by simp
qed

lemma tranclp_less:
  assumes "\<And>a b. R a b \<Longrightarrow> (f a :: int) < f b" and "R\<^sup>+\<^sup>+ a b"
  shows "f a < f b"
  using assms(2) by (induction rule: tranclp_induct) (auto dest: assms(1))

lemma edit_ty_length:
  assumes "edit_ty h a b"
  shows "if add_prefix h then length b = length a + 5 else length a = length b + 5"
  using assms by cases (simp add: prefix_of_def regex_prefix_def)

lemma edit_ty_trancl_length:
  assumes "(edit_ty h)\<^sup>+\<^sup>+ a b"
  shows "if add_prefix h then length a < length b else length b < length a"
  using assms
proof (induction rule: tranclp_induct)
  case (base y)
  from edit_ty_length [OF this] show ?case by (simp split: if_splits)
next
  case (step y z)
  from edit_ty_length [OF step.hyps(2)] step.IH show ?case by (simp split: if_splits)
qed

subsection \<open>The passes\<close>

text \<open>
  A pass either gives back its state as it was, or it sets the flag and gives a text
  of a greater weight.
\<close>

definition pass_ok :: "(string \<times> bool \<Rightarrow> string \<times> bool) \<Rightarrow> bool" where
  "pass_ok p = (\<forall>t c. p (t, c) = (t, c) \<or> (snd (p (t, c)) \<and> weight t < weight (fst (p (t, c)))))"

lemma include_pass_ok:
  assumes "h \<in> set headers"
  shows "pass_ok (include_pass h)"
  unfolding pass_ok_def
proof (intro allI)
  fix t c
  let ?old = "include_line (include_before h)" and ?new = "include_line (include_after h)"
  show "include_pass h (t, c) = (t, c) \<or>
        (snd (include_pass h (t, c)) \<and> weight t < weight (fst (include_pass h (t, c))))"
  proof (cases "sublist ?old t")
    case False
    then show ?thesis by (simp add: include_pass_def)
  next
    case True
    from replace_str_edits1 [OF True, of "[]"]
    have "(edit_inc h)\<^sup>+\<^sup>+ t (replace_str ?old ?new t)" by simp
    then have "weight t < weight (replace_str ?old ?new t)"
      by (rule tranclp_less [rotated]) (rule edit_inc_weight [OF assms])
    with True show ?thesis by (simp add: include_pass_def)
  qed
qed

lemma func_pass_ok:
  assumes "h \<in> set headers"
  shows "pass_ok (func_pass h)"
  unfolding pass_ok_def
proof (intro allI)
  fix t c
  show "func_pass h (t, c) = (t, c) \<or>
        (snd (func_pass h (t, c)) \<and> weight t < weight (fst (func_pass h (t, c))))"
  proof (cases "add_prefix h")
    case False
    then have "prefix_of h = []" by (simp add: prefix_of_def)
    then have "func_substitute h t = (t, False)"
      unfolding func_substitute_def by (rule func_loop_no_prefix)
    then show ?thesis by (simp add: func_pass_def)
  next
    case True
    from func_loop_edits [OF True, of t 0 False]
    consider "func_substitute h t = (t, False)"
      | "snd (func_substitute h t)" "(edit_fn h)\<^sup>+\<^sup>+ t (fst (func_substitute h t))"
      unfolding func_substitute_def by blast
    then show ?thesis
    proof cases
      case 1
      then show ?thesis by (simp add: func_pass_def)
    next
      case 2
      from 2(2) have "weight t < weight (fst (func_substitute h t))"
        by (rule tranclp_less [rotated]) (rule edit_fn_weight [OF assms])
      with 2(1) show ?thesis
        by (cases "func_substitute h t") (simp add: func_pass_def)
    qed
  qed
qed

lemma type_pass_ok:
  assumes "h \<in> set headers"
  shows "pass_ok (type_pass h)"
  unfolding pass_ok_def
proof (intro allI)
  fix t c
  show "type_pass h (t, c) = (t, c) \<or>
        (snd (type_pass h (t, c)) \<and> weight t < weight (fst (type_pass h (t, c))))"
  proof (cases "has_type_regex h")
    case False
    then show ?thesis by (simp add: type_pass_def)
  next
    case True
    with ty_words_nonempty assms have "words_nonempty h" by (simp add: list_all_iff)
    from type_regex_sub_edits [OF this, of t]
    consider "type_regex_sub h t = t" | "(edit_ty h)\<^sup>+\<^sup>+ t (type_regex_sub h t)"
      by (auto dest: rtranclpD)
    then show ?thesis
    proof cases
      case 1
      with True show ?thesis by (simp add: type_pass_def)
    next
      case 2
      then have "weight t < weight (type_regex_sub h t)"
        by (rule tranclp_less [rotated]) (rule edit_ty_weight [OF assms True])
      moreover from edit_ty_trancl_length [OF 2] have "length t \<noteq> length (type_regex_sub h t)"
        by (simp split: if_splits)
      ultimately show ?thesis using True by (simp add: type_pass_def)
    qed
  qed
qed

subsection \<open>The changed flag\<close>

text \<open>The passes of \<open>run\<close>, three for each header, in the order in which they are made.\<close>

definition run_passes :: "(string \<times> bool \<Rightarrow> string \<times> bool) list" where
  "run_passes = concat (map (\<lambda>h. [include_pass h, func_pass h, type_pass h]) headers)"

text \<open>The state before the first pass and after each pass.\<close>

fun pass_states :: "('s \<Rightarrow> 's) list \<Rightarrow> 's \<Rightarrow> 's list" where
  "pass_states [] st = [st]"
| "pass_states (p # ps) st = st # pass_states ps (p st)"

lemma foldl_passes:
  "foldl (\<lambda>st p. p st) st (concat (map (\<lambda>h. [include_pass h, func_pass h, type_pass h]) hs)) =
   foldl (\<lambda>st h. run_header h st) st hs"
  by (induction hs arbitrary: st) (simp_all add: run_header_def)

lemma run_as_passes: "run fname text = foldl (\<lambda>st p. p st) (text, False) run_passes"
  by (simp add: run_def run_passes_def foldl_passes)

lemma last_pass_states: "last (pass_states ps st) = foldl (\<lambda>st p. p st) st ps"
proof (induction ps arbitrary: st)
  case Nil
  show ?case by simp
next
  case (Cons p ps)
  have "pass_states ps (p st) \<noteq> []" by (cases ps) simp_all
  with Cons show ?case by simp
qed

lemma length_pass_states: "length (pass_states ps st) = Suc (length ps)"
  by (induction ps arbitrary: st) simp_all

lemma run_passes_ok: "p \<in> set run_passes \<Longrightarrow> pass_ok p"
  by (auto simp: run_passes_def include_pass_ok func_pass_ok type_pass_ok)

lemma passes_fold:
  assumes "\<And>p. p \<in> set ps \<Longrightarrow> pass_ok p"
  shows "foldl (\<lambda>st p. p st) (t, c) ps = (t, c) \<or>
         (snd (foldl (\<lambda>st p. p st) (t, c) ps) \<and>
          weight t < weight (fst (foldl (\<lambda>st p. p st) (t, c) ps)))"
  using assms
proof (induction ps arbitrary: t c)
  case Nil
  show ?case by simp
next
  case (Cons p ps)
  obtain t1 c1 where p: "p (t, c) = (t1, c1)" by (cases "p (t, c)")
  from Cons.prems [of p] have "pass_ok p" by simp
  then consider "(t1, c1) = (t, c)" | "c1" "weight t < weight t1"
    unfolding pass_ok_def using p by (metis fst_conv snd_conv)
  then show ?case
  proof cases
    case 1
    with Cons.IH [of t c] Cons.prems p show ?thesis by simp
  next
    case 2
    from Cons.IH [of t1 c1] Cons.prems
    consider "foldl (\<lambda>st p. p st) (t1, c1) ps = (t1, c1)"
      | "snd (foldl (\<lambda>st p. p st) (t1, c1) ps)"
        "weight t1 < weight (fst (foldl (\<lambda>st p. p st) (t1, c1) ps))"
      by auto
    then show ?thesis
    proof cases
      case 1
      with 2 p show ?thesis by simp
    next
      case 2
      with \<open>weight t < weight t1\<close> p show ?thesis by simp
    qed
  qed
qed

lemma run_changed_iff: "snd (run fname text) \<longleftrightarrow> fst (run fname text) \<noteq> text"
proof -
  from passes_fold [of run_passes "text" False] run_passes_ok
  consider "run fname text = (text, False)"
    | "snd (run fname text)" "weight text < weight (fst (run fname text))"
    unfolding run_as_passes by blast
  then show ?thesis by cases auto
qed

lemma pass_ok_flag:
  assumes "pass_ok p"
  shows "snd (p (t, c)) \<longleftrightarrow> c \<or> fst (p (t, c)) \<noteq> t"
proof -
  from assms consider "p (t, c) = (t, c)" | "snd (p (t, c))" "weight t < weight (fst (p (t, c)))"
    unfolding pass_ok_def by blast
  then show ?thesis by cases auto
qed

lemma passes_flag:
  assumes "\<And>p. p \<in> set ps \<Longrightarrow> pass_ok p"
  shows "snd (foldl (\<lambda>st p. p st) st ps) \<longleftrightarrow>
         snd st \<or> (\<exists>i < length ps. fst (pass_states ps st ! Suc i) \<noteq> fst (pass_states ps st ! i))"
  using assms
proof (induction ps arbitrary: st)
  case Nil
  show ?case by simp
next
  case (Cons p ps)
  obtain t c where st: "st = (t, c)" by (cases st)
  have hd: "pass_states ps (p st) ! 0 = p st" by (cases ps) simp_all
  have fl: "snd (p st) \<longleftrightarrow> snd st \<or> fst (p st) \<noteq> fst st"
    using pass_ok_flag [of p t c] Cons.prems [of p] st by simp
  have "(\<exists>i < length (p # ps). fst (pass_states (p # ps) st ! Suc i) \<noteq> fst (pass_states (p # ps) st ! i))
      \<longleftrightarrow> fst (p st) \<noteq> fst st \<or>
          (\<exists>i < length ps. fst (pass_states ps (p st) ! Suc i) \<noteq> fst (pass_states ps (p st) ! i))"
    (is "?L \<longleftrightarrow> ?A \<or> ?B")
  proof
    assume ?L
    then obtain i where i: "i < length (p # ps)"
      "fst (pass_states (p # ps) st ! Suc i) \<noteq> fst (pass_states (p # ps) st ! i)" by blast
    show "?A \<or> ?B"
    proof (cases i)
      case 0
      with i hd show ?thesis by simp
    next
      case (Suc j)
      with i have "j < length ps" "fst (pass_states ps (p st) ! Suc j) \<noteq> fst (pass_states ps (p st) ! j)"
        by simp_all
      then show ?thesis by blast
    qed
  next
    assume "?A \<or> ?B"
    then show ?L
    proof
      assume ?A
      then have "fst (pass_states (p # ps) st ! Suc 0) \<noteq> fst (pass_states (p # ps) st ! 0)"
        using hd by simp
      then show ?L by blast
    next
      assume ?B
      then obtain j where "j < length ps"
        "fst (pass_states ps (p st) ! Suc j) \<noteq> fst (pass_states ps (p st) ! j)" by blast
      then have "Suc j < length (p # ps)"
        "fst (pass_states (p # ps) st ! Suc (Suc j)) \<noteq> fst (pass_states (p # ps) st ! Suc j)"
        by simp_all
      then show ?L by blast
    qed
  qed
  moreover have "snd (foldl (\<lambda>st p. p st) (p st) ps) \<longleftrightarrow> snd (p st) \<or> ?B"
    using Cons.IH [of "p st"] Cons.prems by simp
  ultimately show ?case using fl by auto
qed

text \<open>
  C4. The flag that \<open>run\<close> returns is true if and only if one of its passes (the include
  pass, the function pass or the type pass of some header, in the order in which they
  are made) returned a text other than the one it was given; \<open>pass_states\<close> lists the
  state before the first pass and after every pass, the last one being the result.
  And the flag is true if and only if the returned text differs from the input: no pass
  undoes what another one did.
\<close>

theorem run_changed_flag:
  "(snd (run fname text) \<longleftrightarrow>
      (\<exists>i < length run_passes.
         fst (pass_states run_passes (text, False) ! Suc i) \<noteq>
         fst (pass_states run_passes (text, False) ! i))) \<and>
   last (pass_states run_passes (text, False)) = run fname text \<and>
   (snd (run fname text) \<longleftrightarrow> fst (run fname text) \<noteq> text)"
proof -
  have "snd (run fname text) \<longleftrightarrow>
      (\<exists>i < length run_passes.
         fst (pass_states run_passes (text, False) ! Suc i) \<noteq>
         fst (pass_states run_passes (text, False) ! i))"
    unfolding run_as_passes using passes_flag [of run_passes "(text, False)"] run_passes_ok by simp
  moreover have "last (pass_states run_passes (text, False)) = run fname text"
    by (simp add: last_pass_states run_as_passes)
  ultimately show ?thesis using run_changed_iff by blast
qed

subsection \<open>Occurrences of a word that an edit leaves alone\<close>

lemma cnt_append_ge: "cnt w A + cnt w B \<le> cnt w (A @ B)"
proof (induction A)
  case Nil
  show ?case by simp
next
  case (Cons a A)
  have "prefix w (a # A) \<Longrightarrow> prefix w (a # A @ B)"
    by (metis append_Cons prefix_prefix)
  with Cons show ?case by simp
qed

lemma cnt_append_eq:
  assumes "\<And>k. 1 \<le> k \<Longrightarrow> k < length w \<Longrightarrow> suffix (take k w) A \<Longrightarrow> prefix (drop k w) B \<Longrightarrow> False"
  shows "cnt w (A @ B) = cnt w A + cnt w B"
  using assms
proof (induction A)
  case Nil
  show ?case by simp
next
  case (Cons a A)
  have "prefix w (a # A)" if p: "prefix w ((a # A) @ B)"
  proof (rule ccontr)
    assume n: "\<not> prefix w (a # A)"
    from p have "prefix w (a # A) \<or> (\<exists>us. w = (a # A) @ us \<and> prefix us B)"
      by (simp only: prefix_append)
    with n obtain us where w: "w = (a # A) @ us" and us: "prefix us B" by blast
    from n w have "us \<noteq> []" by auto
    with w have "1 \<le> length (a # A)" "length (a # A) < length w" by simp_all
    moreover have "suffix (take (length (a # A)) w) (a # A)" using w by simp
    moreover have "prefix (drop (length (a # A)) w) B" using w us by simp
    ultimately show False by (rule Cons.prems)
  qed
  moreover have "prefix w ((a # A) @ B)" if "prefix w (a # A)"
    using that by (rule prefix_prefix)
  ultimately have eq: "prefix w (a # A @ B) \<longleftrightarrow> prefix w (a # A)" by auto
  have "cnt w (A @ B) = cnt w A + cnt w B"
  proof (rule Cons.IH)
    fix k assume "1 \<le> k" "k < length w" "suffix (take k w) A" "prefix (drop k w) B"
    moreover from this(3) have "suffix (take k w) (a # A)" by (rule suffix_ConsI)
    ultimately show False using Cons.prems by blast
  qed
  with eq show ?case by simp
qed

lemma cnt_skip:
  assumes "\<And>k. k < length m \<Longrightarrow> prefix w (drop k m @ X) \<Longrightarrow> False"
  shows "cnt w (m @ X) = cnt w X"
  using assms
proof (induction m)
  case Nil
  show ?case by simp
next
  case (Cons a m)
  have "\<not> prefix w (a # m @ X)" using Cons.prems [of 0] by auto
  moreover have "cnt w (m @ X) = cnt w X"
  proof (rule Cons.IH)
    fix k assume "k < length m" "prefix w (drop k m @ X)"
    then show False using Cons.prems [of "Suc k"] by simp
  qed
  ultimately show ?case by simp
qed

lemma cnt_edit_le:
  assumes "\<And>k. 1 \<le> k \<Longrightarrow> k < length w \<Longrightarrow> suffix (take k w) L \<Longrightarrow> prefix (drop k w) (m @ X) \<Longrightarrow> False"
    and "\<And>k. k < length m \<Longrightarrow> prefix w (drop k m @ X) \<Longrightarrow> False"
  shows "cnt w (L @ m @ X) \<le> cnt w (L @ m' @ X)"
proof -
  have "cnt w (L @ m @ X) = cnt w L + cnt w (m @ X)"
    using assms(1) by (rule cnt_append_eq)
  also have "cnt w (m @ X) = cnt w X"
    using assms(2) by (rule cnt_skip)
  also have "cnt w L + cnt w X \<le> cnt w L + cnt w (m' @ X)"
    using cnt_append_ge [of w m' X] by simp
  also have "\<dots> \<le> cnt w (L @ m' @ X)" by (rule cnt_append_ge)
  finally show ?thesis .
qed

text \<open>
  Whether an occurrence of \<open>w\<close> can reach into the part \<open>take j S\<close> that an edit takes
  away, or across the place where it inserts, when \<open>S\<close> stands at the place of the
  edit and the character before it satisfies \<open>bnd\<close>.
\<close>

definition agree :: "string \<Rightarrow> string \<Rightarrow> bool" where
  "agree x y = (prefix x y \<or> prefix y x)"

definition clash :: "(char \<Rightarrow> bool) \<Rightarrow> string \<Rightarrow> string \<Rightarrow> nat \<Rightarrow> bool" where
  "clash bnd w S j =
     (list_ex (\<lambda>k. if bnd (w ! (k - 1)) then agree (drop k w) S else False) [1..<length w] \<or>
      list_ex (\<lambda>k. agree w (drop k S)) [0..<j])"

lemma prefix_append_agree: "prefix x (S @ R) \<Longrightarrow> agree x S"
proof -
  assume "prefix x (S @ R)"
  then have "prefix x S \<or> (\<exists>us. x = S @ us \<and> prefix us R)"
    by (simp only: prefix_append)
  then show ?thesis unfolding agree_def by auto
qed

lemma cnt_edit_no_clash:
  assumes "\<not> clash bnd w (m @ ctx) (length m)" and "L = [] \<or> bnd (last L)"
  shows "cnt w (L @ m @ ctx @ R) \<le> cnt w (L @ m' @ ctx @ R)"
proof (rule cnt_edit_le)
  fix k assume k: "1 \<le> k" "k < length w" and s: "suffix (take k w) L"
    and p: "prefix (drop k w) (m @ ctx @ R)"
  from k s have "L \<noteq> []" by auto
  with assms(2) have "bnd (last L)" by simp
  moreover have "last L = last (take k w)"
  proof -
    from s obtain z where "L = z @ take k w" by (auto simp: suffix_def)
    moreover have "take k w \<noteq> []" using k by auto
    ultimately show ?thesis by simp
  qed
  moreover have "last (take k w) = w ! (k - 1)"
  proof -
    have "take k w \<noteq> []" using k by auto
    then have "last (take k w) = take k w ! (length (take k w) - 1)" by (rule last_conv_nth)
    also have "length (take k w) = k" using k by simp
    also have "take k w ! (k - 1) = w ! (k - 1)" using k by simp
    finally show ?thesis .
  qed
  ultimately have "bnd (w ! (k - 1))" by simp
  moreover from p have "agree (drop k w) (m @ ctx)"
    using prefix_append_agree [of "drop k w" "m @ ctx" R] by simp
  ultimately have "\<exists>k \<in> set [1..<length w].
      if bnd (w ! (k - 1)) then agree (drop k w) (m @ ctx) else False"
    using k by (intro bexI [of _ k]) simp_all
  then have "clash bnd w (m @ ctx) (length m)"
    unfolding clash_def list_ex_iff by (rule disjI1)
  with assms(1) show False by simp
next
  fix k assume k: "k < length m" and p: "prefix w (drop k m @ ctx @ R)"
  from k have "drop k (m @ ctx) = drop k m @ ctx" by simp
  with p have "agree w (drop k (m @ ctx))"
    using prefix_append_agree [of w "drop k m @ ctx" R] by simp
  then have "\<exists>k \<in> set [0..<length m]. agree w (drop k (m @ ctx))"
    using k by (intro bexI [of _ k]) simp_all
  then have "clash bnd w (m @ ctx) (length m)"
    unfolding clash_def list_ex_iff by (rule disjI2)
  with assms(1) show False by simp
qed

text \<open>The edits of a header that cannot touch an occurrence of \<open>w\<close>.\<close>

definition inc_safe :: "header \<Rightarrow> string \<Rightarrow> bool" where
  "inc_safe h w =
     (\<not> clash (\<lambda>c. True) w (include_line (include_before h))
          (length (include_line (include_before h))))"

definition fn_safe :: "header \<Rightarrow> string \<Rightarrow> bool" where
  "fn_safe h w =
     (add_prefix h \<longrightarrow> list_all (\<lambda>g. \<not> clash func_boundary w (g @ ''('') 0) (func_names h))"

definition ty_safe :: "header \<Rightarrow> string \<Rightarrow> bool" where
  "ty_safe h w =
     (has_type_regex h \<longrightarrow>
      list_all (\<lambda>g. list_all (\<lambda>f.
          \<not> clash type_lookbehind w (regex_prefix h @ g @ [f]) (length (regex_prefix h)))
        ''),; *'') (rx_lang (type_rx h)))"

definition word_safe :: "header \<Rightarrow> string \<Rightarrow> bool" where
  "word_safe h w = (inc_safe h w \<and> fn_safe h w \<and> ty_safe h w)"

lemma edit_inc_cnt:
  assumes "inc_safe h w" and "edit_inc h a b"
  shows "cnt w a \<le> cnt w b"
  using assms(2)
proof cases
  case (edit_incI A C)
  have "cnt w (A @ include_line (include_before h) @ [] @ C)
      \<le> cnt w (A @ include_line (include_after h) @ [] @ C)"
    by (rule cnt_edit_no_clash [where bnd = "\<lambda>c. True"]) (use assms(1) in \<open>simp_all add: inc_safe_def\<close>)
  with edit_incI show ?thesis by simp
qed

lemma edit_fn_cnt:
  assumes "fn_safe h w" and "edit_fn h a b"
  shows "cnt w a \<le> cnt w b"
  using assms(2)
proof cases
  case (edit_fnI b' g1 A C)
  from assms(1) edit_fnI have nc: "\<not> clash func_boundary w ([] @ g1 @ ''('') (length ([] :: string))"
    by (simp add: fn_safe_def list_all_iff)
  have "cnt w ((A @ [b']) @ [] @ (g1 @ ''('') @ C) \<le> cnt w ((A @ [b']) @ ''std::'' @ (g1 @ ''('') @ C)"
    by (rule cnt_edit_no_clash [OF nc]) (simp add: edit_fnI)
  with edit_fnI show ?thesis by simp
qed

lemma edit_ty_cnt:
  assumes "ty_safe h w" and "has_type_regex h" and "edit_ty h a b"
  shows "cnt w a \<le> cnt w b"
  using assms(3)
proof cases
  case (edit_tyI b' g1 r A)
  from edit_tyI obtain f r' where r: "r = f # r'" and f: "f \<in> set ''),; *''"
    by (cases r) (auto simp: type_lookahead_def)
  from assms(1,2) edit_tyI(4) f
  have nc: "\<not> clash type_lookbehind w (regex_prefix h @ g1 @ [f]) (length (regex_prefix h))"
    unfolding ty_safe_def list_all_iff by blast
  have "cnt w ((A @ [b']) @ regex_prefix h @ (g1 @ [f]) @ r')
       \<le> cnt w ((A @ [b']) @ prefix_of h @ (g1 @ [f]) @ r')"
    by (rule cnt_edit_no_clash [OF nc]) (simp add: edit_tyI)
  with edit_tyI r show ?thesis by simp
qed

lemma rtranclp_cnt:
  assumes "\<And>a b. R a b \<Longrightarrow> cnt w a \<le> cnt w b" and "R\<^sup>*\<^sup>* a b"
  shows "cnt w a \<le> cnt w b"
  using assms(2) by (induction rule: rtranclp_induct) (auto dest: assms(1))

lemma include_pass_cnt:
  assumes "inc_safe h w"
  shows "cnt w t \<le> cnt w (fst (include_pass h (t, c)))"
proof -
  have "(edit_inc h)\<^sup>*\<^sup>* t
      (replace_str (include_line (include_before h)) (include_line (include_after h)) t)"
    using replace_str_edits [of h "[]" t] by simp
  then have "cnt w t \<le> cnt w (replace_str (include_line (include_before h)) (include_line (include_after h)) t)"
    by (rule rtranclp_cnt [rotated]) (rule edit_inc_cnt [OF assms])
  then show ?thesis by (simp add: include_pass_def)
qed

lemma func_pass_cnt:
  assumes "fn_safe h w"
  shows "cnt w t \<le> cnt w (fst (func_pass h (t, c)))"
proof (cases "add_prefix h")
  case False
  then have "prefix_of h = []" by (simp add: prefix_of_def)
  then have "func_substitute h t = (t, False)"
    unfolding func_substitute_def by (rule func_loop_no_prefix)
  then show ?thesis by (simp add: func_pass_def)
next
  case True
  from func_loop_edits [OF True, of t 0 False]
  have "(edit_fn h)\<^sup>*\<^sup>* t (fst (func_substitute h t))"
    unfolding func_substitute_def by (auto intro: tranclp_into_rtranclp)
  then have "cnt w t \<le> cnt w (fst (func_substitute h t))"
    by (rule rtranclp_cnt [rotated]) (rule edit_fn_cnt [OF assms])
  then show ?thesis by (cases "func_substitute h t") (simp add: func_pass_def)
qed

lemma type_pass_cnt:
  assumes "ty_safe h w" and "h \<in> set headers"
  shows "cnt w t \<le> cnt w (fst (type_pass h (t, c)))"
proof (cases "has_type_regex h")
  case False
  then show ?thesis by (simp add: type_pass_def)
next
  case True
  with ty_words_nonempty assms(2) have "words_nonempty h" by (simp add: list_all_iff)
  from type_regex_sub_edits [OF this, of t] have "cnt w t \<le> cnt w (type_regex_sub h t)"
    by (rule rtranclp_cnt [rotated]) (rule edit_ty_cnt [OF assms(1) True])
  with True show ?thesis by (simp add: type_pass_def)
qed

lemma run_header_cnt:
  assumes "word_safe h w" and "h \<in> set headers"
  shows "cnt w (fst st) \<le> cnt w (fst (run_header h st))"
proof -
  obtain t c where st: "st = (t, c)" by (cases st)
  obtain t1 c1 where 1: "include_pass h (t, c) = (t1, c1)" by (cases "include_pass h (t, c)")
  obtain t2 c2 where 2: "func_pass h (t1, c1) = (t2, c2)" by (cases "func_pass h (t1, c1)")
  from assms(1) have s: "inc_safe h w" "fn_safe h w" "ty_safe h w" by (simp_all add: word_safe_def)
  have "cnt w t \<le> cnt w t1" using include_pass_cnt [OF s(1), of t c] 1 by simp
  also have "\<dots> \<le> cnt w t2" using func_pass_cnt [OF s(2), of t1 c1] 2 by simp
  also have "\<dots> \<le> cnt w (fst (type_pass h (t2, c2)))" by (rule type_pass_cnt [OF s(3) assms(2)])
  finally show ?thesis by (simp add: run_header_def st 1 2)
qed

lemma run_headers_cnt:
  assumes "list_all (\<lambda>h. word_safe h w) hs" and "set hs \<subseteq> set headers"
  shows "cnt w (fst st) \<le> cnt w (fst (foldl (\<lambda>st h. run_header h st) st hs))"
  using assms
proof (induction hs arbitrary: st)
  case Nil
  show ?case by simp
next
  case (Cons h hs)
  have "cnt w (fst st) \<le> cnt w (fst (run_header h st))"
    using Cons.prems by (intro run_header_cnt) simp_all
  also have "\<dots> \<le> cnt w (fst (foldl (\<lambda>st h. run_header h st) (run_header h st) hs))"
  proof (rule Cons.IH)
    show "list_all (\<lambda>h. word_safe h w) hs" using Cons.prems by simp
    show "set hs \<subseteq> set headers" using Cons.prems by simp
  qed
  finally show ?case by simp
qed

subsection \<open>What \<open>replace\<close> does to the include line\<close>

lemma replace_str_first:
  assumes "old \<noteq> []" and "\<not> sublist old (A @ butlast old)"
  shows "replace_str old new (A @ old @ C) = A @ new @ replace_str old new C"
  using assms(2)
proof (induction A)
  case Nil
  obtain c o' where o: "old = c # o'" using assms(1) by (cases old) auto
  then have "prefix old (c # o' @ C)" by simp
  then have "replace_str old new (c # o' @ C) = new @ replace_str old new (drop (length old - 1) (o' @ C))"
    by simp
  then show ?case using o by simp
next
  case (Cons a A)
  have e: "a # A @ old @ C = ((a # A) @ butlast old) @ ([last old] @ C)"
    using append_butlast_last_id [OF assms(1)] by (metis append.assoc append_Cons)
  have np: "\<not> prefix old (a # A @ old @ C)"
  proof
    assume "prefix old (a # A @ old @ C)"
    then have "prefix old (((a # A) @ butlast old) @ ([last old] @ C))"
      unfolding e .
    moreover have "prefix ((a # A) @ butlast old) (((a # A) @ butlast old) @ ([last old] @ C))"
      by (rule prefixI) (rule refl)
    moreover have "length old \<le> length ((a # A) @ butlast old)" by simp
    ultimately have "prefix old ((a # A) @ butlast old)"
      by (rule prefix_length_prefix)
    then have "sublist old ((a # A) @ butlast old)" by (rule prefix_imp_sublist)
    with Cons.prems show False by simp
  qed
  have "\<not> sublist old (A @ butlast old)"
    using Cons.prems by (auto simp: sublist_Cons_right)
  from Cons.IH [OF this] np show ?case by simp
qed

lemma replace_str_sublist_new:
  assumes "old \<noteq> []" and "sublist old t"
  shows "sublist new (replace_str old new t)"
  using assms
proof (induction old new t rule: replace_str.induct)
  case (1 old new)
  then show ?case by simp
next
  case (2 old new c cs)
  show ?case
  proof (cases "prefix old (c # cs)")
    case True
    then show ?thesis by simp
  next
    case False
    with "2.prems" have "sublist old cs" by (simp add: sublist_Cons_right)
    with "2.IH"(2) [OF False "2.prems"(1)] False show ?thesis by (simp add: sublist_Cons_right)
  qed
qed


lemma replace_str_copy:
  assumes "old \<noteq> []" and "new \<noteq> []" and "hd new = hd old" and "hd old \<notin> set x"
    and "prefix x (replace_str old new cs)"
  shows "prefix x cs"
  using assms(4,5)
proof (induction cs arbitrary: x)
  case Nil
  then show ?case by simp
next
  case (Cons d ds)
  show ?case
  proof (cases x)
    case Nil
    then show ?thesis by simp
  next
    case x: (Cons y x')
    show ?thesis
    proof (cases "prefix old (d # ds)")
      case True
      with Cons.prems(2) have "prefix x (new @ replace_str old new (drop (length old - 1) ds))"
        by simp
      with x assms(2) have "y = hd new" by (cases new) simp_all
      with x assms(3) Cons.prems(1) show ?thesis by simp
    next
      case False
      with Cons.prems(2) x have "y = d" "prefix x' (replace_str old new ds)" by simp_all
      moreover from Cons.prems(1) x have "hd old \<notin> set x'" by simp
      ultimately show ?thesis using Cons.IH [of x'] x by simp
    qed
  qed
qed

text \<open>
  An include line starts with a character that it holds nowhere else, and neither of
  the two lines of a header starts the other.
\<close>

definition include_ok :: "string \<Rightarrow> string \<Rightarrow> bool" where
  "include_ok old new =
     (old \<noteq> [] \<and> new \<noteq> [] \<and> hd new = hd old \<and> hd old \<notin> set (tl old) \<and>
      hd old \<notin> set (tl new) \<and> \<not> agree old new)"

lemma include_ok_no_sublist:
  assumes "include_ok old new"
  shows "\<not> sublist old new"
proof
  assume "sublist old new"
  then obtain pp ss where n: "new = pp @ old @ ss" by (auto simp: sublist_def)
  show False
  proof (cases pp)
    case Nil
    with n have "prefix old new" by simp
    with assms show False by (simp add: include_ok_def agree_def)
  next
    case (Cons p pp')
    with n have "tl new = pp' @ old @ ss" by simp
    moreover have "hd old \<in> set old" using assms by (simp add: include_ok_def)
    ultimately have "hd old \<in> set (tl new)" by simp
    with assms show False by (simp add: include_ok_def)
  qed
qed

lemma include_ok_no_straddle:
  assumes "include_ok old new" and "old = x1 @ x2" and "suffix x1 new" and "x1 \<noteq> []"
  shows False
proof -
  from assms(3) obtain z where n: "new = z @ x1" by (auto simp: suffix_def)
  have h: "hd x1 = hd old" using assms(2,4) by simp
  show False
  proof (cases z)
    case Nil
    with n assms(2) have "prefix new old" by simp
    with assms(1) show False by (simp add: include_ok_def agree_def)
  next
    case (Cons p z')
    with n have "tl new = z' @ x1" by simp
    moreover have "hd x1 \<in> set x1" using assms(4) by simp
    ultimately have "hd old \<in> set (tl new)" using h by simp
    with assms(1) show False by (simp add: include_ok_def)
  qed
qed

lemma replace_str_no_old:
  assumes "include_ok old new"
  shows "\<not> sublist old (replace_str old new t)"
  using assms
proof (induction old new t rule: replace_str.induct)
  case (1 old new)
  then show ?case by (simp add: include_ok_def)
next
  case (2 old new c cs)
  note ok = "2.prems"
  show ?case
  proof (cases "prefix old (c # cs)")
    case True
    let ?R = "replace_str old new (drop (length old - 1) cs)"
    have ih: "\<not> sublist old ?R" by (rule "2.IH"(1) [OF True ok])
    have "\<not> sublist old (new @ ?R)"
    proof
      assume "sublist old (new @ ?R)"
      then consider "sublist old new" | "sublist old ?R"
        | x1 x2 where "old = x1 @ x2" "suffix x1 new" "prefix x2 ?R"
        unfolding sublist_append by blast
      then show False
      proof cases
        case 1
        with include_ok_no_sublist [OF ok] show False by simp
      next
        case 2
        with ih show False by simp
      next
        case 3
        show False
        proof (cases "x1 = []")
          case True
          with 3 have "prefix old ?R" by simp
          then have "sublist old ?R" by (rule prefix_imp_sublist)
          with ih show False by simp
        next
          case False
          from include_ok_no_straddle [OF ok 3(1,2) False] show False .
        qed
      qed
    qed
    with True show ?thesis by simp
  next
    case False
    let ?R = "replace_str old new cs"
    have ih: "\<not> sublist old ?R" by (rule "2.IH"(2) [OF False ok])
    have "\<not> prefix old (c # ?R)"
    proof
      assume p: "prefix old (c # ?R)"
      from ok have one: "old \<noteq> []" "new \<noteq> []" "hd new = hd old" "hd old \<notin> set (tl old)"
        by (simp_all add: include_ok_def)
      from one(1) have o: "old = hd old # tl old" by simp
      from p have "prefix (hd old # tl old) (c # ?R)" using o by simp
      then have c: "hd old = c" and "prefix (tl old) ?R" by simp_all
      from replace_str_copy [OF one(1,2,3,4) this(2)] have "prefix (tl old) cs" .
      with c have "prefix (hd old # tl old) (c # cs)" by simp
      then have "prefix old (c # cs)" using o by simp
      with False show False by simp
    qed
    with ih False show ?thesis by (simp add: sublist_Cons_right)
  qed
qed

lemma headers_include_ok:
  "list_all (\<lambda>h. include_ok (include_line (include_before h)) (include_line (include_after h)))
     headers"
  by code_simp

subsection \<open>A match of the type pattern is rewritten\<close>

definition type_ok :: "header \<Rightarrow> bool" where
  "type_ok h =
     (has_type_regex h \<and>
      list_all (\<lambda>g. g \<noteq> [] \<and>
          list_all (\<lambda>c. \<not> type_lookbehind c \<and> c \<notin> set ''),; *'') (regex_prefix h @ g))
        (rx_lang (type_rx h)))"

lemma headers_type_ok: "list_all (\<lambda>h. has_type_regex h \<longrightarrow> type_ok h) headers"
  by code_simp

lemma type_okD:
  assumes "type_ok h" and "g \<in> set (rx_lang (type_rx h))"
  shows "g \<noteq> []" and "c \<in> set (regex_prefix h @ g) \<Longrightarrow> \<not> type_lookbehind c"
    and "c \<in> set (regex_prefix h @ g) \<Longrightarrow> c \<notin> set ''),; *''"
  using assms unfolding type_ok_def list_all_iff by blast+

lemma type_match_unique:
  assumes "type_ok h" and g: "g \<in> set (rx_lang (type_rx h))" and f: "f \<in> set ''),; *''"
  shows "type_match_at h (regex_prefix h @ g @ f # rest) = Some (g, f # rest)"
proof -
  let ?rp = "regex_prefix h" and ?s = "regex_prefix h @ g @ f # rest"
  let ?F = "filter type_lookahead (rx_match (type_rx h) (g @ f # rest))"
  have "f # rest \<in> set (rx_match (type_rx h) (g @ f # rest))"
    using g rx_match_lang by blast
  moreover have "type_lookahead (f # rest)" using f by (simp add: type_lookahead_def)
  ultimately have "f # rest \<in> set ?F" by simp
  then obtain r F' where F: "?F = r # F'" by (cases ?F) auto
  then have "r \<in> set ?F" by simp
  then have la: "type_lookahead r" and "r \<in> set (rx_match (type_rx h) (g @ f # rest))"
    by simp_all
  then obtain w where w: "w \<in> set (rx_lang (type_rx h))" and e: "g @ f # rest = w @ r"
    using rx_match_lang by blast
  from la obtain y r' where r: "r = y # r'" and y: "y \<in> set ''),; *''"
    by (cases r) (auto simp: type_lookahead_def)
  from e consider us where "g = w @ us" "us @ f # rest = r"
    | us where "g @ us = w" "f # rest = us @ r"
    unfolding append_eq_append_conv2 by blast
  then have "w = g \<and> r = f # rest"
  proof cases
    case 1
    show ?thesis
    proof (cases us)
      case Nil
      with 1 show ?thesis by simp
    next
      case (Cons u us')
      with 1 r have "y = u" "u \<in> set g" by auto
      with type_okD(3) [OF assms(1) g, of y] y show ?thesis by auto
    qed
  next
    case 2
    show ?thesis
    proof (cases us)
      case Nil
      with 2 show ?thesis by simp
    next
      case (Cons u us')
      with 2 have "f = u" "u \<in> set w" by auto
      with type_okD(3) [OF assms(1) w, of f] f show ?thesis by auto
    qed
  qed
  with F have F': "?F = (f # rest) # F'" by simp
  have gne: "g \<noteq> []" by (rule type_okD(1) [OF assms(1) g])
  have "type_match_at h ?s =
      (if length (f # rest) < length ?s then
         Some (take (length ?s - length ?rp - length (f # rest)) (drop (length ?rp) ?s), f # rest)
       else None)"
    unfolding type_match_at_def by (simp add: F')
  also have "\<dots> = Some (g, f # rest)" using gne by simp
  finally show ?thesis .
qed

lemma type_regex_sub_from_match:
  assumes "s \<noteq> []" and "type_lookbehind p" and "type_match_at h s = Some (g1, r)"
  shows "type_regex_sub_from h (Some p) s =
         prefix_of h @ g1 @ type_regex_sub_from h (Some (s ! (length s - length r - 1))) r"
  using assms by (cases s) simp_all

lemma sublist_skip_block:
  assumes "b \<notin> set M" and "sublist (b # w) (M @ R)"
  shows "sublist (b # w) R"
proof -
  from assms(2) consider "sublist (b # w) M" | "sublist (b # w) R"
    | x1 x2 where "b # w = x1 @ x2" "suffix x1 M" "prefix x2 R"
    unfolding sublist_append by blast
  then show ?thesis
  proof cases
    case 1
    then have "b \<in> set M" using set_mono_sublist by fastforce
    with assms(1) show ?thesis by simp
  next
    case 2
    then show ?thesis .
  next
    case 3
    show ?thesis
    proof (cases x1)
      case Nil
      with 3 have "prefix (b # w) R" by simp
      then show ?thesis by (rule prefix_imp_sublist)
    next
      case (Cons y x1')
      with 3(1) have "y = b" by simp
      with Cons 3(2) have "b \<in> set M" by (auto simp: suffix_def)
      with assms(1) show ?thesis by simp
    qed
  qed
qed

lemma agree_sym: "agree x y = agree y x"
  by (auto simp: agree_def)

text \<open>
  A piece of text in which no match of the type pattern of \<open>h\<close> starts, when \<open>p\<close> is the
  character before it.
\<close>

fun type_inert :: "header \<Rightarrow> char \<Rightarrow> string \<Rightarrow> bool" where
  "type_inert h p [] = True"
| "type_inert h p (c # cs) =
     ((type_lookbehind p \<longrightarrow>
        list_all (\<lambda>g. list_all (\<lambda>f. \<not> agree (c # cs) (regex_prefix h @ g @ [f])) ''),; *'')
          (rx_lang (type_rx h))) \<and>
      type_inert h c cs)"

lemma type_match_at_None:
  assumes "list_all (\<lambda>g. list_all (\<lambda>f. \<not> agree T (regex_prefix h @ g @ [f])) ''),; *'')
             (rx_lang (type_rx h))"
  shows "type_match_at h (T @ rest) = None"
proof (rule ccontr)
  assume "type_match_at h (T @ rest) \<noteq> None"
  then obtain g1 r where m: "type_match_at h (T @ rest) = Some (g1, r)" by auto
  from type_match_atD [OF m] have e: "T @ rest = regex_prefix h @ g1 @ r"
    and g1: "g1 \<in> set (rx_lang (type_rx h))" and la: "type_lookahead r" by simp_all
  from la obtain f r' where r: "r = f # r'" and f: "f \<in> set ''),; *''"
    by (cases r) (auto simp: type_lookahead_def)
  have "prefix (regex_prefix h @ g1 @ [f]) (T @ rest)"
    unfolding e r by (simp add: prefix_def)
  then have "agree (regex_prefix h @ g1 @ [f]) T" by (rule prefix_append_agree)
  then have "agree T (regex_prefix h @ g1 @ [f])" by (simp add: agree_sym)
  with assms g1 f show False unfolding list_all_iff by blast
qed

lemma type_inert_copy:
  assumes "type_inert h p T"
  shows "type_regex_sub_from h (Some p) (T @ rest) = T @ type_regex_sub_from h (Some (last (p # T))) rest"
  using assms
proof (induction T arbitrary: p)
  case Nil
  show ?case by simp
next
  case (Cons c cs)
  have "(if type_lookbehind p then type_match_at h (c # cs @ rest) else None) = None"
    using Cons.prems type_match_at_None [of "c # cs" h rest] by simp
  then have "type_regex_sub_from h (Some p) ((c # cs) @ rest) =
      c # type_regex_sub_from h (Some c) (cs @ rest)" by (simp split: if_splits)
  also have "type_regex_sub_from h (Some c) (cs @ rest) =
      cs @ type_regex_sub_from h (Some (last (c # cs))) rest"
    using Cons.prems by (intro Cons.IH) simp
  finally show ?case by simp
qed

lemma type_regex_sub_from_rewrites:
  assumes ok: "type_ok h" and b: "type_lookbehind b" and g: "g \<in> set (rx_lang (type_rx h))"
    and f: "f \<in> set ''),; *''" and inert: "type_inert h f T"
  shows "sublist (b # regex_prefix h @ g @ f # T) s \<Longrightarrow>
         sublist (b # prefix_of h @ g @ f # T) (type_regex_sub_from h prev s)"
  using ok g inert
proof (induction h prev s rule: type_regex_sub_from.induct)
  case (1 h prev)
  then show ?case by simp
next
  case (2 h prev c cs)
  note ok = "2.prems"(2) and g = "2.prems"(3) and inert = "2.prems"(4)
  let ?W = "b # regex_prefix h @ g @ f # T" and ?W' = "b # prefix_of h @ g @ f # T"
  let ?guard = "if (case prev of None \<Rightarrow> False | Some x \<Rightarrow> type_lookbehind x)
                then type_match_at h (c # cs) else None"
  show ?case
  proof (cases ?guard)
    case (Some x2)
    obtain g1 r where x2: "x2 = (g1, r)" by (cases x2)
    from Some have m: "type_match_at h (c # cs) = Some (g1, r)"
      unfolding x2 by (simp split: if_splits)
    from type_match_atD [OF m] have s: "c # cs = (regex_prefix h @ g1) @ r"
      and g1: "g1 \<in> set (rx_lang (type_rx h))" by simp_all
    let ?x = "(c # cs) ! (length (c # cs) - length r - 1)"
    have out: "type_regex_sub_from h prev (c # cs) = prefix_of h @ g1 @ type_regex_sub_from h (Some ?x) r"
      using Some x2 by simp
    have "b \<notin> set (regex_prefix h @ g1)"
      using type_okD(2) [OF ok g1, of b] b by blast
    moreover have "sublist ?W ((regex_prefix h @ g1) @ r)"
      using "2.prems"(1) unfolding s .
    ultimately have "sublist ?W r" by (rule sublist_skip_block)
    then have "sublist ?W' (type_regex_sub_from h (Some ?x) r)"
      by (rule "2.IH"(2) [OF Some x2 [symmetric] _ ok g inert])
    then have "sublist ?W' ((prefix_of h @ g1) @ type_regex_sub_from h (Some ?x) r)"
      unfolding sublist_append by blast
    then show ?thesis unfolding out by simp
  next
    case None
    have out: "type_regex_sub_from h prev (c # cs) = c # type_regex_sub_from h (Some c) cs"
      using None by simp
    from "2.prems"(1) consider "prefix ?W (c # cs)" | "sublist ?W cs"
      unfolding sublist_Cons_right by blast
    then show ?thesis
    proof cases
      case 2
      then have "sublist ?W' (type_regex_sub_from h (Some c) cs)"
        by (rule "2.IH"(1) [OF None _ ok g inert])
      then show ?thesis unfolding out by (simp add: sublist_Cons_right)
    next
      case 1
      then obtain rest where cs: "c # cs = b # regex_prefix h @ g @ f # T @ rest"
        by (auto simp: prefix_def)
      then have c: "c = b" and cs': "cs = regex_prefix h @ g @ f # T @ rest" by simp_all
      have gne: "g \<noteq> []" by (rule type_okD(1) [OF ok g])
      let ?s = "regex_prefix h @ g @ f # T @ rest"
      have m: "type_match_at h ?s = Some (g, f # T @ rest)"
        by (rule type_match_unique [OF ok g f])
      have x: "?s ! (length ?s - length (f # T @ rest) - 1) = last g"
      proof -
        have "?s ! (length ?s - length (f # T @ rest) - 1) =
              ((regex_prefix h @ g) @ f # T @ rest) ! (length (regex_prefix h @ g) - 1)"
          by simp
        also have "\<dots> = (regex_prefix h @ g) ! (length (regex_prefix h @ g) - 1)"
          using gne by (subst nth_append) simp
        also have "\<dots> = last (regex_prefix h @ g)"
          using gne by (simp add: last_conv_nth)
        finally show ?thesis using gne by simp
      qed
      have nl: "\<not> type_lookbehind (last g)"
        using type_okD(2) [OF ok g, of "last g"] gne by simp
      have "type_regex_sub_from h (Some b) ?s =
            prefix_of h @ g @ type_regex_sub_from h (Some (last g)) (f # T @ rest)"
        using type_regex_sub_from_match [OF _ b m] gne x by simp
      also have "type_regex_sub_from h (Some (last g)) (f # T @ rest) =
            f # type_regex_sub_from h (Some f) (T @ rest)"
        using nl by simp
      also have "type_regex_sub_from h (Some f) (T @ rest) =
            T @ type_regex_sub_from h (Some (last (f # T))) rest"
        by (rule type_inert_copy [OF inert])
      finally have ts: "type_regex_sub_from h (Some b) ?s =
            prefix_of h @ g @ f # T @ type_regex_sub_from h (Some (last (f # T))) rest" .
      have "type_regex_sub_from h prev (c # cs) = b # type_regex_sub_from h (Some b) ?s"
        using out by (simp only: c cs')
      also have "\<dots> = ?W' @ type_regex_sub_from h (Some (last (f # T))) rest"
        by (simp only: ts) simp
      finally show ?thesis by (metis sublist_append_rightI)
    qed
  qed
qed

lemma type_pass_rewrites:
  assumes "type_ok h" and "type_lookbehind b" and "g \<in> set (rx_lang (type_rx h))"
    and "f \<in> set ''),; *''" and "type_inert h f T"
    and "sublist (b # regex_prefix h @ g @ f # T) t"
  shows "sublist (b # prefix_of h @ g @ f # T) (fst (type_pass h (t, c)))"
proof -
  from assms(1) have "has_type_regex h" by (simp add: type_ok_def)
  then have "fst (type_pass h (t, c)) = type_regex_sub_from h None t"
    by (simp add: type_pass_def type_regex_sub_def)
  with type_regex_sub_from_rewrites [OF assms(1-5), of t None] assms(6) show ?thesis by simp
qed

subsection \<open>The flag is never reset\<close>

lemma pass_ok_keeps_flag:
  assumes "pass_ok p" and "snd st"
  shows "snd (p st)"
proof -
  obtain t c where st: "st = (t, c)" by (cases st)
  from assms(1) have "p (t, c) = (t, c) \<or> snd (p (t, c))" unfolding pass_ok_def by blast
  with assms(2) st show ?thesis by auto
qed

lemma run_header_keeps_flag:
  assumes "h \<in> set headers" and "snd st"
  shows "snd (run_header h st)"
proof -
  have "snd (include_pass h st)"
    using include_pass_ok [OF assms(1)] assms(2) by (rule pass_ok_keeps_flag)
  then have "snd (func_pass h (include_pass h st))"
    using func_pass_ok [OF assms(1)] by (rule pass_ok_keeps_flag [rotated])
  then have "snd (type_pass h (func_pass h (include_pass h st)))"
    using type_pass_ok [OF assms(1)] by (rule pass_ok_keeps_flag [rotated])
  then show ?thesis by (simp add: run_header_def)
qed

lemma run_headers_keep_flag:
  assumes "set hs \<subseteq> set headers" and "snd st"
  shows "snd (foldl (\<lambda>st h. run_header h st) st hs)"
  using assms
proof (induction hs arbitrary: st)
  case Nil
  then show ?case by simp
next
  case (Cons h hs)
  then have "snd (run_header h st)" by (simp add: run_header_keeps_flag)
  with Cons show ?case by simp
qed

subsection \<open>Words that survive the whole run\<close>

lemma cnt_le_sublist:
  assumes "cnt w a \<le> cnt w b" and "sublist w a" and "w \<noteq> []"
  shows "sublist w b"
proof -
  from assms(2,3) have "0 < cnt w a" by (simp add: cnt_pos_iff)
  with assms(1) have "0 < cnt w b" by simp
  with assms(3) show ?thesis by (simp add: cnt_pos_iff)
qed

lemma sublist_cnt_le:
  assumes "sublist w a" and "cnt w a \<le> cnt w b" and "w \<noteq> []"
  shows "sublist w b"
  using assms(2,1,3) by (rule cnt_le_sublist)

lemma length_headers: "length headers = 15"
  by (simp add: headers_def)

lemma run_split:
  assumes "k < 15"
  shows "run fname lines =
    foldl (\<lambda>st h. run_header h st)
      (run_header (headers ! k) (foldl (\<lambda>st h. run_header h st) (lines, False) (take k headers)))
      (drop (Suc k) headers)"
proof -
  have "headers = take k headers @ headers ! k # drop (Suc k) headers"
    using assms length_headers by (simp add: id_take_nth_drop)
  then have "foldl (\<lambda>st h. run_header h st) (lines, False) headers =
      foldl (\<lambda>st h. run_header h st) (lines, False)
        (take k headers @ headers ! k # drop (Suc k) headers)"
    by simp
  then show ?thesis unfolding run_def by (simp only: foldl_append foldl_Cons)
qed

lemma headers_parts:
  assumes "k < 15"
  shows "set (take k headers) \<subseteq> set headers" and "headers ! k \<in> set headers"
    and "set (drop (Suc k) headers) \<subseteq> set headers"
  using assms length_headers by (simp_all add: set_take_subset set_drop_subset)

text \<open>
  The conditions, all of them computable, under which the type pass of the header
  \<open>headers ! k\<close> meets the word \<open>b # regex_prefix @ g @ f # T\<close> untouched, rewrites it,
  and the later passes leave the rewritten word alone.
\<close>

definition type_rewrite_at ::
  "header list \<Rightarrow> header \<Rightarrow> header list \<Rightarrow> char \<Rightarrow> string \<Rightarrow> char \<Rightarrow> string \<Rightarrow> bool" where
  "type_rewrite_at bef h aft b g f T =
     (list_all (\<lambda>h'. word_safe h' (b # regex_prefix h @ g @ f # T)) bef \<and>
      inc_safe h (b # regex_prefix h @ g @ f # T) \<and>
      fn_safe h (b # regex_prefix h @ g @ f # T) \<and>
      type_ok h \<and> type_lookbehind b \<and>
      g \<in> set (rx_lang (type_rx h)) \<and> f \<in> set ''),; *'' \<and>
      type_inert h f T \<and>
      list_all (\<lambda>h'. word_safe h' (b # prefix_of h @ g @ f # T)) aft)"

definition type_rewrite_ok :: "nat \<Rightarrow> char \<Rightarrow> string \<Rightarrow> char \<Rightarrow> string \<Rightarrow> bool" where
  "type_rewrite_ok k b g f T =
     (k < 15 \<and> type_rewrite_at (take k headers) (headers ! k) (drop (Suc k) headers) b g f T)"

lemma type_rewrite_header:
  assumes "type_rewrite_ok k b g f T"
    and "sublist (b # regex_prefix (headers ! k) @ g @ f # T) (fst st)"
  shows "sublist (b # prefix_of (headers ! k) @ g @ f # T) (fst (run_header (headers ! k) st))"
proof -
  let ?h = "headers ! k"
  let ?W = "b # regex_prefix ?h @ g @ f # T"
  obtain t c where st: "st = (t, c)" by (cases st)
  obtain t1 c1 where 1: "include_pass ?h (t, c) = (t1, c1)" by (cases "include_pass ?h (t, c)")
  obtain t2 c2 where 2: "func_pass ?h (t1, c1) = (t2, c2)" by (cases "func_pass ?h (t1, c1)")
  from assms(1) have a: "inc_safe ?h ?W" "fn_safe ?h ?W" "type_ok ?h" "type_lookbehind b"
    "g \<in> set (rx_lang (type_rx ?h))" "f \<in> set ''),; *''" "type_inert ?h f T"
    by (simp_all add: type_rewrite_ok_def type_rewrite_at_def)
  have "cnt ?W t \<le> cnt ?W t1"
    using include_pass_cnt [OF a(1), of t c] by (simp add: 1)
  moreover have "sublist ?W t" using assms(2) st by simp
  ultimately have "sublist ?W t1" by (rule cnt_le_sublist) simp
  moreover have "cnt ?W t1 \<le> cnt ?W t2"
    using func_pass_cnt [OF a(2), of t1 c1] by (simp add: 2)
  ultimately have "sublist ?W t2" by (rule sublist_cnt_le) simp
  then have "sublist (b # prefix_of ?h @ g @ f # T) (fst (type_pass ?h (t2, c2)))"
    by (rule type_pass_rewrites [OF a(3-7)])
  then show ?thesis by (simp add: run_header_def st 1 2)
qed

lemma type_rewrite_run:
  assumes "type_rewrite_ok k b g f T"
    and "sublist (b # regex_prefix (headers ! k) @ g @ f # T) lines"
  shows "sublist (b # prefix_of (headers ! k) @ g @ f # T) (fst (run fname lines))"
proof -
  let ?h = "headers ! k"
  let ?W = "b # regex_prefix ?h @ g @ f # T" and ?W' = "b # prefix_of ?h @ g @ f # T"
  let ?st1 = "foldl (\<lambda>st h. run_header h st) (lines, False) (take k headers)"
  from assms(1) have k: "k < 15"
    and s1: "list_all (\<lambda>h'. word_safe h' ?W) (take k headers)"
    and s2: "list_all (\<lambda>h'. word_safe h' ?W') (drop (Suc k) headers)"
    by (simp_all add: type_rewrite_ok_def type_rewrite_at_def)
  have "cnt ?W (fst (lines, False)) \<le> cnt ?W (fst ?st1)"
    by (rule run_headers_cnt [OF s1 headers_parts(1) [OF k]])
  moreover have "sublist ?W (fst (lines, False))" using assms(2) by simp
  ultimately have "sublist ?W (fst ?st1)" by (rule cnt_le_sublist) simp
  then have 2: "sublist ?W' (fst (run_header ?h ?st1))"
    by (rule type_rewrite_header [OF assms(1)])
  have "cnt ?W' (fst (run_header ?h ?st1)) \<le>
        cnt ?W' (fst (foldl (\<lambda>st h. run_header h st) (run_header ?h ?st1) (drop (Suc k) headers)))"
    by (rule run_headers_cnt [OF s2 headers_parts(3) [OF k]])
  then have "sublist ?W'
      (fst (foldl (\<lambda>st h. run_header h st) (run_header ?h ?st1) (drop (Suc k) headers)))"
    using 2 by (rule cnt_le_sublist) simp
  then show ?thesis unfolding run_split [OF k] .
qed

lemma word_safe_run:
  assumes "list_all (\<lambda>h. word_safe h w) headers"
  shows "cnt w lines \<le> cnt w (fst (run fname lines))"
  using run_headers_cnt [OF assms subset_refl, of "(lines, False)"] by (simp add: run_def)

text \<open>The same for the include line of \<open>headers ! k\<close>.\<close>

definition include_rewrite_at :: "header list \<Rightarrow> header \<Rightarrow> header list \<Rightarrow> bool" where
  "include_rewrite_at bef h aft =
     (list_all (\<lambda>h'. word_safe h' (include_line (include_before h))) bef \<and>
      fn_safe h (include_line (include_after h)) \<and>
      ty_safe h (include_line (include_after h)) \<and>
      list_all (\<lambda>h'. word_safe h' (include_line (include_after h))) aft)"

text \<open>Every element of a list, with the elements before it and after it.\<close>

fun splits :: "'a list \<Rightarrow> 'a list \<Rightarrow> ('a list \<times> 'a \<times> 'a list) list" where
  "splits bef [] = []"
| "splits bef (h # aft) = (bef, h, aft) # splits (bef @ [h]) aft"

lemma splits_nth:
  "k < length hs \<Longrightarrow> (bef @ take k hs, hs ! k, drop (Suc k) hs) \<in> set (splits bef hs)"
proof (induction hs arbitrary: bef k)
  case Nil
  then show ?case by simp
next
  case (Cons h hs)
  show ?case
  proof (cases k)
    case 0
    then show ?thesis by simp
  next
    case (Suc j)
    with Cons.prems have "j < length hs" by simp
    from Cons.IH [OF this, of "bef @ [h]"] Suc show ?thesis by simp
  qed
qed

lemma headers_include_rewrite_at:
  "list_all (\<lambda>(bef, h, aft). include_rewrite_at bef h aft) (splits [] headers)"
  by code_simp

definition include_rewrite_ok :: "nat \<Rightarrow> bool" where
  "include_rewrite_ok k = include_rewrite_at (take k headers) (headers ! k) (drop (Suc k) headers)"

lemma headers_include_rewrite_ok: "k < 15 \<Longrightarrow> include_rewrite_ok k"
  using splits_nth [of k headers "[]"] headers_include_rewrite_at
  unfolding include_rewrite_ok_def list_all_iff length_headers by fastforce

lemma include_rewrite_header:
  assumes "k < 15" and "include_rewrite_ok k"
    and "sublist (include_line (include_before (headers ! k))) (fst st)"
  shows "sublist (include_line (include_after (headers ! k))) (fst (run_header (headers ! k) st)) \<and>
         snd (run_header (headers ! k) st)"
proof -
  let ?h = "headers ! k"
  let ?old = "include_line (include_before ?h)" and ?new = "include_line (include_after ?h)"
  obtain t c where st: "st = (t, c)" by (cases st)
  have 1: "include_pass ?h (t, c) = (replace_str ?old ?new t, True)"
    using assms(3) st by (simp add: include_pass_def)
  obtain t2 c2 where 2: "func_pass ?h (replace_str ?old ?new t, True) = (t2, c2)"
    by (cases "func_pass ?h (replace_str ?old ?new t, True)")
  from assms(2) have a: "fn_safe ?h ?new" "ty_safe ?h ?new"
    by (simp_all add: include_rewrite_ok_def include_rewrite_at_def)
  have hh: "?h \<in> set headers" by (rule headers_parts(2) [OF assms(1)])
  have fl: "snd (type_pass ?h (func_pass ?h (include_pass ?h (t, c))))"
  proof -
    have "snd (include_pass ?h (t, c))" using 1 by simp
    then have "snd (func_pass ?h (include_pass ?h (t, c)))"
      using func_pass_ok [OF hh] by (rule pass_ok_keeps_flag [rotated])
    then show ?thesis
      using type_pass_ok [OF hh] by (rule pass_ok_keeps_flag [rotated])
  qed
  have "sublist ?old t" using assms(3) st by simp
  then have "sublist ?new (replace_str ?old ?new t)"
    by (rule replace_str_sublist_new [rotated]) simp
  moreover have "cnt ?new (replace_str ?old ?new t) \<le> cnt ?new t2"
    using func_pass_cnt [OF a(1), of "replace_str ?old ?new t" True] by (simp add: 2)
  ultimately have "sublist ?new t2" by (rule sublist_cnt_le) simp
  moreover have "cnt ?new t2 \<le> cnt ?new (fst (type_pass ?h (t2, c2)))"
    by (rule type_pass_cnt [OF a(2) hh])
  ultimately have "sublist ?new (fst (type_pass ?h (t2, c2)))"
    by (rule sublist_cnt_le) simp
  then show ?thesis using fl by (simp add: run_header_def st 1 2)
qed

lemma include_rewrite_run:
  assumes "k < 15" and "sublist (include_line (include_before (headers ! k))) lines"
  shows "sublist (include_line (include_after (headers ! k))) (fst (run fname lines)) \<and>
         snd (run fname lines)"
proof -
  let ?h = "headers ! k"
  let ?old = "include_line (include_before ?h)" and ?new = "include_line (include_after ?h)"
  let ?st1 = "foldl (\<lambda>st h. run_header h st) (lines, False) (take k headers)"
  let ?st2 = "run_header ?h ?st1"
  have ok: "include_rewrite_ok k"
    using assms(1) by (rule headers_include_rewrite_ok)
  then have s1: "list_all (\<lambda>h'. word_safe h' ?old) (take k headers)"
    and s2: "list_all (\<lambda>h'. word_safe h' ?new) (drop (Suc k) headers)"
    by (simp_all add: include_rewrite_ok_def include_rewrite_at_def)
  have "cnt ?old (fst (lines, False)) \<le> cnt ?old (fst ?st1)"
    by (rule run_headers_cnt [OF s1 headers_parts(1) [OF assms(1)]])
  moreover have "sublist ?old (fst (lines, False))" using assms(2) by simp
  ultimately have "sublist ?old (fst ?st1)" by (rule cnt_le_sublist) simp
  from include_rewrite_header [OF assms(1) ok this]
  have 2: "sublist ?new (fst ?st2)" and f2: "snd ?st2" by simp_all
  have "cnt ?new (fst ?st2) \<le>
        cnt ?new (fst (foldl (\<lambda>st h. run_header h st) ?st2 (drop (Suc k) headers)))"
    by (rule run_headers_cnt [OF s2 headers_parts(3) [OF assms(1)]])
  then have "sublist ?new (fst (foldl (\<lambda>st h. run_header h st) ?st2 (drop (Suc k) headers)))"
    using 2 by (rule cnt_le_sublist) simp
  moreover have "snd (foldl (\<lambda>st h. run_header h st) ?st2 (drop (Suc k) headers))"
    by (rule run_headers_keep_flag [OF headers_parts(3) [OF assms(1)] f2])
  ultimately show ?thesis unfolding run_split [OF assms(1)] by simp
qed

section \<open>Single rewrites through the whole run\<close>

subsection \<open>Type boundaries\<close>

lemma vector_size_t_safe: "list_all (\<lambda>h. word_safe h ''vector<size_t>'') headers"
  by code_simp

lemma FILE_rewrite_ok: "type_rewrite_ok 11 CHR '' '' ''FILE'' CHR '' '' ''*''"
  by code_simp

lemma stdio_prefixes: "regex_prefix (headers ! 11) = []" "prefix_of (headers ! 11) = ''std::''"
  by code_simp+

text \<open>
  C6. In every text that contains \<open>vector<size_t>\<close> the output of the run still contains
  it: the right angle bracket is no right boundary, so the stdint rule (the eleventh of the
  table) finds no match there and no other rule touches it. In every text that contains
  \<open> FILE *\<close> the output contains \<open> std::FILE *\<close>; the pointer asterisk is a right boundary
  for the stdio rule as the space is, so \<open> FILE* f\<close> becomes \<open> std::FILE* f\<close>, while \<open>FILE\<close>
  at the very start of the text has no left boundary and stays.
\<close>

theorem type_boundaries:
  "(sublist ''vector<size_t>'' lines \<longrightarrow> sublist ''vector<size_t>'' (fst (run fname lines))) \<and>
   (sublist '' FILE *'' lines \<longrightarrow> sublist '' std::FILE *'' (fst (run fname lines))) \<and>
   type_regex_sub (headers ! 10) ''vector<size_t>'' = ''vector<size_t>'' \<and>
   run fname ''vector<size_t>'' = (''vector<size_t>'', False) \<and>
   run fname '' FILE *'' = ('' std::FILE *'', True) \<and>
   run fname ''FILE* f'' = (''FILE* f'', False) \<and>
   run fname '' FILE* f'' = ('' std::FILE* f'', True)"
proof -
  have a: "sublist ''vector<size_t>'' (fst (run fname lines))" if "sublist ''vector<size_t>'' lines"
    using word_safe_run [OF vector_size_t_safe, of lines fname] that
    by (rule cnt_le_sublist) simp
  have b: "sublist '' std::FILE *'' (fst (run fname lines))" if "sublist '' FILE *'' lines"
    using type_rewrite_run [OF FILE_rewrite_ok, of lines fname] that
    by (simp add: stdio_prefixes)
  have c: "type_regex_sub (headers ! 10) ''vector<size_t>'' = ''vector<size_t>''"
    by code_simp
  have d: "run fname ''vector<size_t>'' = (''vector<size_t>'', False)"
    unfolding run_def by code_simp
  have e: "run fname '' FILE *'' = ('' std::FILE *'', True)"
    unfolding run_def by code_simp
  have f: "run fname ''FILE* f'' = (''FILE* f'', False)"
    unfolding run_def by code_simp
  have g: "run fname '' FILE* f'' = ('' std::FILE* f'', True)"
    unfolding run_def by code_simp
  from a b c d e f g show ?thesis by blast
qed

theorem type_boundaries_witness:
  "sublist ''vector<size_t>'' ''std::vector<size_t> v;'' \<and>
   sublist ''vector<size_t>'' (fst (run ''a.cpp'' ''std::vector<size_t> v;'')) \<and>
   sublist '' FILE *'' ''int f( FILE *p);'' \<and>
   sublist '' std::FILE *'' (fst (run ''a.cpp'' ''int f( FILE *p);''))"
proof -
  have 1: "sublist ''vector<size_t>'' ''std::vector<size_t> v;''" by code_simp
  have 2: "sublist '' FILE *'' ''int f( FILE *p);''" by code_simp
  from type_boundaries [of "''std::vector<size_t> v;''" "''a.cpp''"] 1
  have 3: "sublist ''vector<size_t>'' (fst (run ''a.cpp'' ''std::vector<size_t> v;''))" by blast
  from type_boundaries [of "''int f( FILE *p);''" "''a.cpp''"] 2
  have 4: "sublist '' std::FILE *'' (fst (run ''a.cpp'' ''int f( FILE *p);''))" by blast
  from 1 2 3 4 show ?thesis by blast
qed

subsection \<open>Rules that remove the prefix from types\<close>









subsection \<open>The include line\<close>

text \<open>The quoted form of an include line, which the task does not handle.\<close>

definition quoted_include_line :: "string \<Rightarrow> string" where
  "quoted_include_line spine = ''#include '' @ [CHR 0x22] @ spine @ [CHR 0x22]"

lemma quoted_safe:
  "list_all (\<lambda>h'. list_all (\<lambda>h. word_safe h (quoted_include_line (include_before h'))) headers)
     headers"
  by code_simp

lemma headers_nth: "h \<in> set headers \<Longrightarrow> \<exists>k < 15. h = headers ! k"
  using length_headers by (metis in_set_conv_nth)

text \<open>
  C5. For every header and every text that contains \<open>#include <oldSpine>\<close>, the include
  pass returns \<open>lines.replace(...)\<close> and sets the flag; \<open>replace\<close> rewrites the leftmost
  occurrence literally and goes on after it, and for the headers of the table no
  occurrence of the old line is left in its result. Through the whole run, a text that
  contains the old line of a header of the table gives a text that contains its new
  line, with \<open>changed = true\<close>; so \<open>#include <stdio.h>\<close> gives \<open>#include <cstdio>\<close>. The
  quoted form of the old line of any header of the table is still there after the run.
\<close>

theorem include_spine_rewrite:
  "(sublist (include_line (include_before h)) lines \<longrightarrow>
      include_pass h (lines, ch) =
        (replace_str (include_line (include_before h)) (include_line (include_after h)) lines,
         True)) \<and>
   (\<not> sublist (include_line (include_before h)) (A @ butlast (include_line (include_before h))) \<longrightarrow>
      replace_str (include_line (include_before h)) (include_line (include_after h))
        (A @ include_line (include_before h) @ C) =
      A @ include_line (include_after h) @
        replace_str (include_line (include_before h)) (include_line (include_after h)) C) \<and>
   (h \<in> set headers \<longrightarrow>
      \<not> sublist (include_line (include_before h))
          (replace_str (include_line (include_before h)) (include_line (include_after h)) lines)) \<and>
   (h \<in> set headers \<longrightarrow> sublist (include_line (include_before h)) lines \<longrightarrow>
      sublist (include_line (include_after h)) (fst (run fname lines)) \<and> snd (run fname lines)) \<and>
   (sublist ''#include <stdio.h>'' lines \<longrightarrow>
      sublist ''#include <cstdio>'' (fst (run fname lines)) \<and> snd (run fname lines)) \<and>
   (h \<in> set headers \<longrightarrow> sublist (quoted_include_line (include_before h)) lines \<longrightarrow>
      sublist (quoted_include_line (include_before h)) (fst (run fname lines))) \<and>
   run fname (quoted_include_line ''stdio.h'') = (quoted_include_line ''stdio.h'', False)"
proof -
  let ?old = "include_line (include_before h)" and ?new = "include_line (include_after h)"
  have a: "include_pass h (lines, ch) = (replace_str ?old ?new lines, True)"
    if "sublist ?old lines"
    using that by (simp add: include_pass_def)
  have b: "replace_str ?old ?new (A @ ?old @ C) = A @ ?new @ replace_str ?old ?new C"
    if "\<not> sublist ?old (A @ butlast ?old)"
    using that by (intro replace_str_first) simp_all
  have c: "\<not> sublist ?old (replace_str ?old ?new lines)" if "h \<in> set headers"
  proof (rule replace_str_no_old)
    show "include_ok ?old ?new"
      using headers_include_ok that unfolding list_all_iff by blast
  qed
  have d: "sublist ?new (fst (run fname lines)) \<and> snd (run fname lines)"
    if "h \<in> set headers" "sublist ?old lines"
  proof -
    from headers_nth [OF that(1)] obtain k where k: "k < 15" "h = headers ! k" by blast
    from include_rewrite_run [OF k(1), of lines fname] that(2) k(2) show ?thesis by simp
  qed
  have e: "sublist ''#include <cstdio>'' (fst (run fname lines)) \<and> snd (run fname lines)"
    if "sublist ''#include <stdio.h>'' lines"
  proof -
    have "include_line (include_before (headers ! 11)) = ''#include <stdio.h>''"
      "include_line (include_after (headers ! 11)) = ''#include <cstdio>''"
      by code_simp+
    with include_rewrite_run [of 11 lines fname] that show ?thesis by simp
  qed
  have f: "sublist (quoted_include_line (include_before h)) (fst (run fname lines))"
    if "h \<in> set headers" "sublist (quoted_include_line (include_before h)) lines"
  proof -
    have "list_all (\<lambda>h'. word_safe h' (quoted_include_line (include_before h))) headers"
      using quoted_safe that(1) unfolding list_all_iff by blast
    from word_safe_run [OF this, of lines fname] that(2) show ?thesis
      by (rule cnt_le_sublist) (simp add: quoted_include_line_def)
  qed
  have g: "run fname (quoted_include_line ''stdio.h'') = (quoted_include_line ''stdio.h'', False)"
    unfolding run_def by code_simp
  from a b c d e f g show ?thesis by blast
qed

theorem include_spine_rewrite_witness:
  "headers ! 11 \<in> set headers \<and>
   sublist (include_line (include_before (headers ! 11))) ''#include <stdio.h>#include <stdio.h>'' \<and>
   \<not> sublist (include_line (include_before (headers ! 11))) ([] @ butlast (include_line (include_before (headers ! 11)))) \<and>
   include_pass (headers ! 11) (''#include <stdio.h>#include <stdio.h>'', False) =
     (''#include <cstdio>#include <cstdio>'', True) \<and>
   \<not> sublist ''#include <stdio.h>'' (fst (include_pass (headers ! 11) (''#include <stdio.h>#include <stdio.h>'', False))) \<and>
   sublist ''#include <cstdio>'' (fst (run ''a.cpp'' ''#include <stdio.h>#include <stdio.h>'')) \<and>
   snd (run ''a.cpp'' ''#include <stdio.h>#include <stdio.h>'') \<and>
   sublist (quoted_include_line ''stdio.h'') (''  '' @ quoted_include_line ''stdio.h'') \<and>
   sublist (quoted_include_line ''stdio.h'') (fst (run ''a.cpp'' (''  '' @ quoted_include_line ''stdio.h'')))"
proof -
  let ?t = "''#include <stdio.h>#include <stdio.h>''"
  have h: "headers ! 11 \<in> set headers" by (rule headers_parts(2)) simp
  have o: "include_line (include_before (headers ! 11)) = ''#include <stdio.h>''"
    "include_line (include_after (headers ! 11)) = ''#include <cstdio>''"
    by code_simp+
  have o3: "include_before (headers ! 11) = ''stdio.h''"
    by code_simp
  have 1: "sublist (include_line (include_before (headers ! 11))) ?t" unfolding o by code_simp
  have 2: "\<not> sublist (include_line (include_before (headers ! 11)))
             ([] @ butlast (include_line (include_before (headers ! 11))))"
    unfolding o by code_simp
  have r: "replace_str ''#include <stdio.h>'' ''#include <cstdio>'' ?t =
           ''#include <cstdio>#include <cstdio>''" by code_simp
  note t = include_spine_rewrite [of "headers ! 11" ?t False "[]" "''#include <stdio.h>''" "''a.cpp''"]
  from t 1 have 3: "include_pass (headers ! 11) (?t, False) = (''#include <cstdio>#include <cstdio>'', True)"
    unfolding o r by blast
  from t h have "\<not> sublist ''#include <stdio.h>''
      (replace_str ''#include <stdio.h>'' ''#include <cstdio>'' ?t)"
    unfolding o by blast
  with 3 have 4: "\<not> sublist ''#include <stdio.h>'' (fst (include_pass (headers ! 11) (?t, False)))"
    unfolding r by simp
  from t h 1 have 5: "sublist ''#include <cstdio>'' (fst (run ''a.cpp'' ?t)) \<and> snd (run ''a.cpp'' ?t)"
    unfolding o by blast
  have 6: "sublist (quoted_include_line ''stdio.h'') (''  '' @ quoted_include_line ''stdio.h'')"
    by (rule sublist_append_leftI)
  from include_spine_rewrite [of "headers ! 11" "''  '' @ quoted_include_line ''stdio.h''"
      False "[]" "[]" "''a.cpp''"] h 6
  have 7: "sublist (quoted_include_line ''stdio.h'')
      (fst (run ''a.cpp'' (''  '' @ quoted_include_line ''stdio.h'')))"
    unfolding o3 by blast
  from h 1 2 3 4 5 6 7 show ?thesis by blast
qed

subsection \<open>Call sites that no rule owns\<close>

lemma agree_Nil [simp]: "agree [] y" "agree x []"
  by (simp_all add: agree_def)

lemma agree_Cons [simp]: "agree (x # xs) (y # ys) \<longleftrightarrow> x = y \<and> agree xs ys"
  by (auto simp: agree_def)

lemma clash_iff:
  "clash bnd w S j \<longleftrightarrow>
     (\<exists>k. 1 \<le> k \<and> k < length w \<and> bnd (w ! (k - 1)) \<and> agree (drop k w) S) \<or>
     (\<exists>k < j. agree w (drop k S))"
proof -
  have "list_ex (\<lambda>k. if bnd (w ! (k - 1)) then agree (drop k w) S else False) [1..<length w] \<longleftrightarrow>
        (\<exists>k. 1 \<le> k \<and> k < length w \<and> bnd (w ! (k - 1)) \<and> agree (drop k w) S)"
    unfolding list_ex_iff by (auto split: if_splits)
  moreover have "list_ex (\<lambda>k. agree w (drop k S)) [0..<j] \<longleftrightarrow> (\<exists>k < j. agree w (drop k S))"
    unfolding list_ex_iff by auto
  ultimately show ?thesis unfolding clash_def by simp
qed

lemma lower_digit_chars:
  assumes "is_lower_digit x"
  shows "\<not> func_boundary x" "\<not> type_lookbehind x" "x \<noteq> CHR ''(''" "x \<noteq> CHR ''#''"
    "x \<notin> set ''),; *''"
  using assms
  by (auto simp: is_lower_digit_def func_boundary_def type_lookbehind_def)

lemma is_lower_lower_digit: "is_lower x \<Longrightarrow> is_lower_digit x"
  by (auto simp: is_lower_def is_lower_digit_def)

lemma func_boundary_chars:
  assumes "func_boundary b"
  shows "type_lookbehind b" "b \<noteq> CHR ''#''"
  using assms by (auto simp: func_boundary_def type_lookbehind_def)

text \<open>
  In \<open>b # ident @ ''(''\<close> only the first character is a boundary among those that have a
  character of the word after them.
\<close>

lemma call_word_boundary:
  assumes id: "list_all is_lower_digit ident"
    and k: "1 \<le> k" "k < length (b # ident @ ''('')"
    and bnd: "bnd ((b # ident @ ''('') ! (k - 1))"
    and nb: "\<And>x. is_lower_digit x \<Longrightarrow> \<not> bnd x"
  shows "k = 1"
proof (rule ccontr)
  assume "k \<noteq> 1"
  with k obtain i where i: "k = Suc (Suc i)" "i < length ident"
    by (cases k; cases "k - 1") auto
  then have "(b # ident @ ''('') ! (k - 1) = ident ! i" by (simp add: nth_append)
  moreover have "is_lower_digit (ident ! i)" using id i by (simp add: list_all_length)
  ultimately show False using bnd nb by simp
qed

lemma agree_paren:
  assumes "CHR ''('' \<notin> set x" and "CHR ''('' \<notin> set y" and "agree (x @ ''('') (y @ ''('')"
  shows "x = y"
proof -
  have tw: "takeWhile (\<lambda>c. c \<noteq> CHR ''('') (u @ CHR ''('' # z) = u" if "CHR ''('' \<notin> set u" for u z
    using that by (induction u) auto
  from assms(3) obtain z where "y @ ''('' = x @ ''('' @ z \<or> x @ ''('' = y @ ''('' @ z"
    unfolding agree_def prefix_def by auto
  then have "takeWhile (\<lambda>c. c \<noteq> CHR ''('') (y @ CHR ''('' # []) =
             takeWhile (\<lambda>c. c \<noteq> CHR ''('') (x @ CHR ''('' # z) \<or>
             takeWhile (\<lambda>c. c \<noteq> CHR ''('') (x @ CHR ''('' # []) =
             takeWhile (\<lambda>c. c \<noteq> CHR ''('') (y @ CHR ''('' # z)"
    by auto
  then show ?thesis using tw assms(1,2) by auto
qed

fun no_call_start :: "string \<Rightarrow> bool" where
  "no_call_start [] = True"
| "no_call_start [x] = (\<not> func_boundary x)"
| "no_call_start (x # y # zs) = ((if func_boundary x then \<not> is_lower y else True) \<and> no_call_start (y # zs))"

lemma no_call_start_drop: "no_call_start S \<Longrightarrow> no_call_start (drop k S)"
proof (induction S arbitrary: k rule: no_call_start.induct)
  case 1
  then show ?case by simp
next
  case (2 x)
  then show ?case by (cases k) simp_all
next
  case (3 x y zs)
  then show ?case by (cases k) (simp_all split: if_splits)
qed

lemma no_call_start_agree:
  assumes "no_call_start S" and "S \<noteq> []" and "func_boundary b" and "is_lower c"
  shows "\<not> agree (b # c # rest) S"
proof (cases S rule: no_call_start.cases)
  case 1
  with assms(2) show ?thesis by simp
next
  case (2 x)
  with assms(1,3) show ?thesis by auto
next
  case (3 x y zs)
  with assms(1,3,4) show ?thesis by (auto split: if_splits)
qed

lemma headers_no_call_start:
  "list_all (\<lambda>h. no_call_start (include_line (include_before h))) headers"
  by code_simp

lemma headers_no_paren:
  "list_all (\<lambda>h. list_all (\<lambda>g. CHR ''('' \<notin> set g) (func_names h)) headers"
  by code_simp

text \<open>The names that some rule of the table owns.\<close>

definition owned_names :: "string list" where
  "owned_names = concat (map func_names headers)"

lemma unowned_word_safe:
  assumes h: "h \<in> set headers" and b: "func_boundary b" and c: "is_lower c"
    and r: "list_all is_lower_digit r" and un: "c # r \<notin> set owned_names"
  shows "word_safe h (b # c # r @ ''('')"
proof -
  let ?id = "c # r" and ?W = "b # c # r @ ''(''"
  have id: "list_all is_lower_digit ?id" using c r by (simp add: is_lower_lower_digit)
  have W: "?W = b # ?id @ ''(''" by simp
  have np: "CHR ''('' \<notin> set ?id"
    using id lower_digit_chars(3) unfolding list_all_iff by blast
  have inc: "inc_safe h ?W"
  proof -
    let ?old = "include_line (include_before h)"
    have old: "?old = CHR ''#'' # tl ?old" by (simp add: include_line_def)
    have "\<not> agree (drop k ?W) ?old" if k: "1 \<le> k" "k < length ?W" for k
    proof -
      from k obtain y ys where d: "drop k ?W = y # ys" by (cases "drop k ?W") auto
      then have "y \<in> set (drop k ?W)" by simp
      then have "y \<in> set ?W" by (rule in_set_dropD)
      then have "y \<noteq> CHR ''#''"
        using func_boundary_chars(2) [OF b] id lower_digit_chars(4)
        unfolding list_all_iff by auto
      then show ?thesis unfolding d by (subst old) simp
    qed
    moreover have "\<not> agree ?W (drop k ?old)" if k: "k < length ?old" for k
    proof -
      have "no_call_start (drop k ?old)"
        using headers_no_call_start h unfolding list_all_iff by (intro no_call_start_drop) blast
      moreover have "drop k ?old \<noteq> []" using k by simp
      ultimately show ?thesis using b c by (rule no_call_start_agree)
    qed
    ultimately show ?thesis unfolding inc_safe_def clash_iff by blast
  qed
  have fn: "fn_safe h ?W"
    unfolding fn_safe_def list_all_iff
  proof (intro impI ballI)
    fix g assume g: "g \<in> set (func_names h)"
    have "g \<in> set owned_names" using g h by (auto simp: owned_names_def)
    with un have ne: "?id \<noteq> g" by auto
    have gp: "CHR ''('' \<notin> set g" using headers_no_paren h g unfolding list_all_iff by blast
    have "\<not> agree (drop k ?W) (g @ ''('')"
      if k: "1 \<le> k" "k < length ?W" "func_boundary (?W ! (k - 1))" for k
    proof -
      have "k = 1"
        using id k(1) k(2) [unfolded W] k(3) [unfolded W] lower_digit_chars(1)
        by (rule call_word_boundary)
      then have "drop k ?W = ?id @ ''(''" by simp
      moreover have "\<not> agree (?id @ ''('') (g @ ''('')"
        using agree_paren [OF np gp] ne by blast
      ultimately show ?thesis by simp
    qed
    then show "\<not> clash func_boundary ?W (g @ ''('') 0"
      unfolding clash_iff by auto
  qed
  have ty: "ty_safe h ?W"
    unfolding ty_safe_def list_all_iff
  proof (intro impI ballI)
    fix g f assume ht: "has_type_regex h" and g: "g \<in> set (rx_lang (type_rx h))"
      and f: "f \<in> set ''),; *''"
    let ?S = "regex_prefix h @ g @ [f]"
    have ok: "type_ok h" using headers_type_ok h ht unfolding list_all_iff by blast
    have nl: "\<not> type_lookbehind x" if "x \<in> set (regex_prefix h @ g)" for x
      using type_okD(2) [OF ok g that] .
    have fp: "f \<noteq> CHR ''(''" using f by auto
    have Sp: "CHR ''('' \<notin> set ?S"
    proof
      assume "CHR ''('' \<in> set ?S"
      with fp have "CHR ''('' \<in> set (regex_prefix h @ g)" by auto
      from nl [OF this] show False by (simp add: type_lookbehind_def)
    qed
    have 1: "\<not> agree (drop k ?W) ?S"
      if k: "1 \<le> k" "k < length ?W" "type_lookbehind (?W ! (k - 1))" for k
    proof
      assume a: "agree (drop k ?W) ?S"
      have "k = 1"
        using id k(1) k(2) [unfolded W] k(3) [unfolded W] lower_digit_chars(2)
        by (rule call_word_boundary)
      then have d: "drop k ?W = ?id @ ''(''" by simp
      from a consider "prefix (?id @ ''('') ?S" | "prefix ?S (?id @ ''('')"
        unfolding d agree_def by blast
      then show False
      proof cases
        case 1
        then have "set (?id @ ''('') \<subseteq> set ?S" by (rule set_mono_prefix)
        with Sp show False by auto
      next
        case 2
        then have "set ?S \<subseteq> set (?id @ ''('')" by (rule set_mono_prefix)
        then have "f \<in> set (?id @ ''('')" by auto
        with fp have "f \<in> set ?id" by auto
        then have "is_lower_digit f" using id unfolding list_all_iff by blast
        from lower_digit_chars(5) [OF this] f show False by simp
      qed
    qed
    have 2: "\<not> agree ?W (drop k ?S)" if k: "k < length (regex_prefix h)" for k
    proof -
      from k have "drop k ?S = regex_prefix h ! k # drop (Suc k) (regex_prefix h) @ g @ [f]"
        by (simp add: Cons_nth_drop_Suc)
      moreover have "regex_prefix h ! k \<noteq> b"
        using nl [of "regex_prefix h ! k"] k func_boundary_chars(1) [OF b] by auto
      ultimately show ?thesis by auto
    qed
    from 1 2 show "\<not> clash type_lookbehind ?W ?S (length (regex_prefix h))"
      unfolding clash_iff by blast
  qed
  from inc fn ty show ?thesis by (simp add: word_safe_def)
qed

lemma unowned_headers_safe:
  assumes "func_boundary b" and "is_lower c" and "list_all is_lower_digit r"
    and "c # r \<notin> set owned_names" and "set hs \<subseteq> set headers"
  shows "list_all (\<lambda>h. word_safe h (b # c # r @ ''('')) hs"
  unfolding list_all_iff using assms(5) unowned_word_safe [OF _ assms(1-4)] by blast


text \<open>
  C7. Let \<open>b\<close> be a space, a comma or an open parenthesis and \<open>c # r\<close> a lowercase identifier
  (a lowercase letter, then lowercase letters and digits) that no rule of the table owns,
  so that \<open>b # c # r @ ''(''\<close> matches the call-site pattern. Then no rule modifies an
  occurrence of that word: \<open>cnt w t\<close> being the number of places of \<open>t\<close> at which \<open>w\<close>
  occurs, the function pass of every rule, every turn of the loop over the headers and
  the whole run return a text with at least as many occurrences as they were given; in
  particular a text that contains the word comes back containing it. For the user
  function \<open>foo\<close>: the run gives \<open> foo(x)\<close> back as it was.
\<close>

theorem unowned_call_site_untouched:
  assumes "func_boundary b" and "is_lower c" and "list_all is_lower_digit r"
    and "c # r \<notin> set owned_names"
  shows "cnt (b # c # r @ ''('') lines \<le> cnt (b # c # r @ ''('') (fst (run fname lines)) \<and>
    (sublist (b # c # r @ ''('') lines \<longrightarrow> sublist (b # c # r @ ''('') (fst (run fname lines))) \<and>
    (h \<in> set headers \<longrightarrow>
       cnt (b # c # r @ ''('') lines \<le> cnt (b # c # r @ ''('') (fst (func_substitute h lines)) \<and>
       cnt (b # c # r @ ''('') lines \<le> cnt (b # c # r @ ''('') (fst (run_header h (lines, ch)))) \<and>
    ''foo'' \<notin> set owned_names \<and>
    run fname '' foo(x)'' = ('' foo(x)'', False)"
proof -
  let ?W = "b # c # r @ ''(''"
  have all: "list_all (\<lambda>h. word_safe h ?W) headers"
    by (rule unowned_headers_safe [OF assms subset_refl])
  have 1: "cnt ?W lines \<le> cnt ?W (fst (run fname lines))"
    by (rule word_safe_run [OF all])
  then have 2: "sublist ?W (fst (run fname lines))" if "sublist ?W lines"
    using that by (rule cnt_le_sublist) simp
  have 3: "cnt ?W lines \<le> cnt ?W (fst (func_substitute h lines)) \<and>
           cnt ?W lines \<le> cnt ?W (fst (run_header h (lines, ch)))" if h: "h \<in> set headers"
  proof -
    have ws: "word_safe h ?W" by (rule unowned_word_safe [OF h assms])
    then have "fn_safe h ?W" by (simp add: word_safe_def)
    from func_pass_cnt [OF this, of lines False]
    have "cnt ?W lines \<le> cnt ?W (fst (func_substitute h lines))"
      by (cases "func_substitute h lines") (simp add: func_pass_def has_func_regex_def)
    moreover from run_header_cnt [OF ws h, of "(lines, ch)"]
    have "cnt ?W lines \<le> cnt ?W (fst (run_header h (lines, ch)))" by simp
    ultimately show ?thesis ..
  qed
  have 4: "''foo'' \<notin> set owned_names" by code_simp
  have 5: "run fname '' foo(x)'' = ('' foo(x)'', False)"
    unfolding run_def by code_simp
  from 1 2 3 4 5 show ?thesis by blast
qed

theorem unowned_call_site_untouched_witness:
  "func_boundary CHR '' '' \<and> is_lower CHR ''f'' \<and> list_all is_lower_digit ''oo'' \<and>
   ''foo'' \<notin> set owned_names \<and>
   cnt '' foo('' ''y = foo(sin(x)) + foo(2);'' = 2 \<and>
   2 \<le> cnt '' foo('' (fst (run ''a.cpp'' ''y = foo(sin(x)) + foo(2);'')) \<and>
   sublist '' foo('' (fst (run ''a.cpp'' ''y = foo(sin(x)) + foo(2);''))"
proof -
  have 1: "func_boundary CHR '' ''" by code_simp
  have 2: "is_lower CHR ''f''" by code_simp
  have 3: "list_all is_lower_digit ''oo''" by code_simp
  have 4: "CHR ''f'' # ''oo'' \<notin> set owned_names" by code_simp
  have 5: "cnt '' foo('' ''y = foo(sin(x)) + foo(2);'' = 2" by code_simp
  have 6: "sublist '' foo('' ''y = foo(sin(x)) + foo(2);''" by code_simp
  note t = unowned_call_site_untouched [OF 1 2 3 4, of "''y = foo(sin(x)) + foo(2);''" "''a.cpp''"
      "headers ! 0" False]
  from t 5 have 7: "2 \<le> cnt '' foo('' (fst (run ''a.cpp'' ''y = foo(sin(x)) + foo(2);''))"
    by simp
  from t 6 have 8: "sublist '' foo('' (fst (run ''a.cpp'' ''y = foo(sin(x)) + foo(2);''))"
    by simp
  from 1 2 3 4 5 7 8 show ?thesis by simp
qed

section \<open>The function pass and the whole run\<close>

subsection \<open>Rules that remove the prefix\<close>

text \<open>
  C10. For every rule built with \<open>add_prefix = False\<close> the function pass gives the text
  back as it was and reports no change, whatever the text: the slice up to the start of
  group 1 still holds the matched \<open>std::\<close>, and the prefix put before group 1 is empty.
  The signal rule is such a rule, and the whole task leaves the qualified call
  \<open> std::raise(sig)\<close> as it is.
\<close>

theorem func_substitute_remove_prefix_identity:
  "func_substitute (Header n fs ts False) lines = (lines, False) \<and>
   func_pass (Header n fs ts False) (lines, ch) = (lines, ch) \<and>
   headers ! 7 = Header ''signal'' [''signal'', ''raise''] [Lit ''sig_atomic_t''] False \<and>
   func_substitute (headers ! 7) '' std::raise(sig)'' = ('' std::raise(sig)'', False) \<and>
   run fname '' std::raise(sig)'' = ('' std::raise(sig)'', False)"
proof -
  have p: "prefix_of (Header n fs ts False) = []"
    by (simp add: prefix_of_def Header_def)
  have a: "func_substitute (Header n fs ts False) lines = (lines, False)"
    unfolding func_substitute_def by (rule func_loop_no_prefix [OF p])
  have b: "func_pass (Header n fs ts False) (lines, ch) = (lines, ch)"
    by (simp add: func_pass_def a)
  have c: "headers ! 7 = Header ''signal'' [''signal'', ''raise''] [Lit ''sig_atomic_t''] False"
    by (simp add: headers_def)
  have d: "func_substitute (headers ! 7) '' std::raise(sig)'' = ('' std::raise(sig)'', False)"
    unfolding c func_substitute_def
    by (rule func_loop_no_prefix) (simp add: prefix_of_def Header_def)
  have e: "run fname '' std::raise(sig)'' = ('' std::raise(sig)'', False)"
    unfolding run_def by code_simp
  from a b c d e show ?thesis by blast
qed

subsection \<open>Where the scan resumes\<close>

text \<open>
  C2. After a candidate that the rule does not own, the scan does not resume right after
  the identifier: \<open>pos\<close> is moved on by the length of the prefix as well, although nothing
  was inserted. With the math rule (the sixth of the table) the owned call \<open>sin(\<close> that
  begins right after the unowned \<open>foo\<close> is skipped and the pass reports no change, while
  the same call after a plain parenthesis is rewritten.
\<close>

theorem func_substitute_skips_after_unowned:
  "name (headers ! 5) = ''math'' \<and>
   func_search (regex_prefix (headers ! 5)) '' foo(sin(x))'' 0 = Some (1, ''foo'') \<and>
   func_search (regex_prefix (headers ! 5)) (drop 4 '' foo(sin(x))'') 4 = Some (5, ''sin'') \<and>
   func_search (regex_prefix (headers ! 5)) (drop 9 '' foo(sin(x))'') 9 = None \<and>
   func_substitute (headers ! 5) '' foo(sin(x))'' = ('' foo(sin(x))'', False) \<and>
   func_substitute (headers ! 5) '' (sin(x))'' = ('' (std::sin(x))'', True) \<and>
   run ''a.cpp'' '' foo(sin(x))'' = ('' foo(sin(x))'', False)"
  by code_simp

subsection \<open>Running the task twice\<close>

text \<open>
  C1. The task is not idempotent. On \<open> sin(isalpha(x))\<close> the first run rewrites \<open>sin\<close>
  only: the ctype rule, which comes before the math rule, meets the unowned \<open>sin\<close>, moves
  five characters too far and misses \<open>isalpha\<close>. In the second run \<open>std::sin\<close> is no
  candidate any more, the ctype rule finds \<open>isalpha\<close> and rewrites it, so the second run
  changes the text and reports a change.
\<close>

theorem run_twice_differs:
  "run ''a.cpp'' '' sin(isalpha(x))'' = ('' std::sin(isalpha(x))'', True) \<and>
   run ''a.cpp'' (fst (run ''a.cpp'' '' sin(isalpha(x))'')) = ('' std::sin(std::isalpha(x))'', True) \<and>
   fst (run ''a.cpp'' (fst (run ''a.cpp'' '' sin(isalpha(x))''))) \<noteq> fst (run ''a.cpp'' '' sin(isalpha(x))'')"
  by code_simp

section \<open>Properties of the clang-tidy task\<close>

lemma run_standalone_cases:
  "run_standalone fname proc =
     (case filter_lines (stdout proc) of
        Inl e \<Rightarrow> Inl e
      | Inr [] \<Rightarrow> Inr (True, None)
      | Inr (l # ls) \<Rightarrow>
          Inr (False, Some (''== clang-tidy '' @ fname @ '' =='' @ [CHR 0x0A] @ join_nl (l # ls))))"
  by (simp add: run_standalone_def split: sum.splits list.splits)

lemma run_standalone_returncode:
  "run_standalone fname (proc\<lparr>returncode := rc\<rparr>) = run_standalone fname proc"
  by (simp add: run_standalone_def)

text \<open>
  The third filter in the words of the specification: every \<open>file not found\<close> diagnostic
  is dropped together with the two lines that follow it (or with those that are left,
  when fewer than two follow).
\<close>

fun spec_drop_not_found :: "string list \<Rightarrow> string list" where
  "spec_drop_not_found [] = []"
| "spec_drop_not_found (l # ls) =
     (if sublist ''file not found [clang-diagnostic-error]'' l then spec_drop_not_found (drop 2 ls)
      else l # spec_drop_not_found ls)"

definition spec_filter_lines :: "string \<Rightarrow> string list" where
  "spec_filter_lines output =
     spec_drop_not_found
       (filter (\<lambda>l. \<not> sublist ''Error while processing'' l)
          (filter (\<lambda>l. \<not> sublist '' generated.'' l)
             (filter (\<lambda>l. l \<noteq> []) (split_nl (rstrip output)))))"

text \<open>Whenever the loop of the task ends without an exception, it has computed that filter.\<close>

lemma skip_not_found_spec:
  "skip_not_found ls acc = Inr r \<Longrightarrow> r = acc @ spec_drop_not_found ls"
proof (induction ls acc rule: skip_not_found.induct)
  case (1 filtered_lines)
  then show ?case by simp
next
  case (2 l rest filtered_lines)
  show ?case
  proof (cases "sublist ''file not found [clang-diagnostic-error]'' l")
    case True
    with "2.prems" obtain x y rest2 where rest: "rest = x # y # rest2"
      by (cases rest; cases "tl rest") auto
    with True "2.prems" have "skip_not_found rest2 filtered_lines = Inr r" by simp
    from "2.IH"(1) [OF True _ _ this, of x "y # rest2" y] rest True show ?thesis by simp
  next
    case False
    with "2.prems" have "skip_not_found rest (filtered_lines @ [l]) = Inr r" by simp
    from "2.IH"(2) [OF False this] False show ?thesis by simp
  qed
qed

lemma run_standalone_spec:
  "run_standalone fname proc = Inr (res, out) \<Longrightarrow> res = (spec_filter_lines (stdout proc) = [])"
proof -
  assume a: "run_standalone fname proc = Inr (res, out)"
  then obtain ls where f: "filter_lines (stdout proc) = Inr ls"
    by (auto simp: run_standalone_def split: sum.splits)
  then have "ls = spec_filter_lines (stdout proc)"
    unfolding filter_lines_def spec_filter_lines_def using skip_not_found_spec by fastforce
  with a f show ?thesis by (auto simp: run_standalone_def split: if_splits)
qed

text \<open>
  C9. A \<open>file not found\<close> diagnostic with fewer than two lines after it makes
  \<open>next(iterlines)\<close> raise \<open>StopIteration\<close>, and \<open>run_standalone\<close> raises it in turn instead
  of returning a boolean: both when the diagnostic is the last line and when one line
  follows it.
\<close>

theorem run_standalone_raises_StopIteration:
  "run_standalone ''a.cpp''
     \<lparr>returncode = 1,
      stdout = ''a.cpp:1:10: error: x.h file not found [clang-diagnostic-error]'' @ [CHR 0x0A]\<rparr>
     = Inl StopIteration \<and>
   run_standalone ''a.cpp''
     \<lparr>returncode = 1,
      stdout = ''a.cpp:1:10: error: x.h file not found [clang-diagnostic-error]'' @ [CHR 0x0A] @
               ''#include <x.h>'' @ [CHR 0x0A]\<rparr>
     = Inl StopIteration"
  by code_simp

text \<open>
  C8. The task returns true with nothing printed, or false with the remaining lines
  printed under the banner, according to whether its filters leave no line, and the exit
  code is never read; on the output of the specification's example (a summary line, an
  \<open>Error while processing\<close> line and a diagnostic with its two lines) it returns true. But
  it does not return a boolean for every output: when the caret line of the diagnostic
  is missing, the three filters as the specification words them leave no line, and the
  task raises \<open>StopIteration\<close> instead of returning true.
\<close>

theorem run_standalone_pass_or_raise:
  "run_standalone fname proc =
     (case filter_lines (stdout proc) of
        Inl e \<Rightarrow> Inl e
      | Inr [] \<Rightarrow> Inr (True, None)
      | Inr (l # ls) \<Rightarrow>
          Inr (False, Some (''== clang-tidy '' @ fname @ '' =='' @ [CHR 0x0A] @ join_nl (l # ls)))) \<and>
   run_standalone fname (proc\<lparr>returncode := rc\<rparr>) = run_standalone fname proc \<and>
   run_standalone ''foo.cpp''
     \<lparr>returncode = 1,
      stdout = ''3 errors generated.'' @ [CHR 0x0A] @
               ''Error while processing foo.cpp'' @ [CHR 0x0A] @
               ''foo.cpp:1:10: error: x.h file not found [clang-diagnostic-error]'' @ [CHR 0x0A] @
               ''#include <x.h>'' @ [CHR 0x0A] @
               ''         ^'' @ [CHR 0x0A]\<rparr>
     = Inr (True, None) \<and>
   spec_filter_lines
     (''3 errors generated.'' @ [CHR 0x0A] @
      ''Error while processing foo.cpp'' @ [CHR 0x0A] @
      ''foo.cpp:1:10: error: x.h file not found [clang-diagnostic-error]'' @ [CHR 0x0A] @
      ''#include <x.h>'' @ [CHR 0x0A]) = [] \<and>
   run_standalone ''foo.cpp''
     \<lparr>returncode = 1,
      stdout = ''3 errors generated.'' @ [CHR 0x0A] @
               ''Error while processing foo.cpp'' @ [CHR 0x0A] @
               ''foo.cpp:1:10: error: x.h file not found [clang-diagnostic-error]'' @ [CHR 0x0A] @
               ''#include <x.h>'' @ [CHR 0x0A]\<rparr>
     = Inl StopIteration"
proof -
  have a: "run_standalone ''foo.cpp''
     \<lparr>returncode = 1,
      stdout = ''3 errors generated.'' @ [CHR 0x0A] @
               ''Error while processing foo.cpp'' @ [CHR 0x0A] @
               ''foo.cpp:1:10: error: x.h file not found [clang-diagnostic-error]'' @ [CHR 0x0A] @
               ''#include <x.h>'' @ [CHR 0x0A] @
               ''         ^'' @ [CHR 0x0A]\<rparr>
     = Inr (True, None)"
    by code_simp
  have b: "run_standalone ''foo.cpp''
     \<lparr>returncode = 1,
      stdout = ''3 errors generated.'' @ [CHR 0x0A] @
               ''Error while processing foo.cpp'' @ [CHR 0x0A] @
               ''foo.cpp:1:10: error: x.h file not found [clang-diagnostic-error]'' @ [CHR 0x0A] @
               ''#include <x.h>'' @ [CHR 0x0A]\<rparr>
     = Inl StopIteration"
    by code_simp
  have c: "spec_filter_lines
     (''3 errors generated.'' @ [CHR 0x0A] @
      ''Error while processing foo.cpp'' @ [CHR 0x0A] @
      ''foo.cpp:1:10: error: x.h file not found [clang-diagnostic-error]'' @ [CHR 0x0A] @
      ''#include <x.h>'' @ [CHR 0x0A]) = []"
    by code_simp
  from a b c run_standalone_returncode run_standalone_cases show ?thesis by blast
qed

end
